theory Spec2Isabelle
  imports Main "HOL-Library.Word"
begin

section \<open>The xv6 buffer cache with hashed buckets (kernel/bio.c)\<close>

text \<open>
  The cache is an array \<open>bcache.buf[NBUF]\<close> of buffers and \<open>N = 13\<close> buckets, each a
  singly linked list of buffers threaded through \<open>next\<close>.  A buffer is addressed by
  its index in the array; a bucket's linked list is the list of the indices met when
  walking from \<open>head\<close> through \<open>next\<close>.  All unsigned C integers (\<open>uint\<close>) are 32-bit
  words, so that \<open>refcnt--\<close> and \<open>uint time = -1\<close> wrap as they do in C.

  The functions are modelled twice.  First, each call runs from its beginning to its
  return, to a panic or to the point where it goes to sleep, and the calls of different
  processes follow one another; the spin locks, all free between two calls, are left
  out.  Second, \<open>bget\<close> is cut into the steps between its spin lock operations, and the
  calls of different processes overlap.
\<close>

type_synonym u32 = "32 word"
type_synonym u8 = "8 word"

text \<open>\<open>#define N 13\<close>\<close>

definition N :: nat where
  "N = 13"

text \<open>
  Modelled from the spec: the sleep lock of \<open>sleeplock.h\<close> and \<open>sleeplock.c\<close> (not among
  the sources).  It is the per-slot exclusive lock: a flag and the process that holds it.
  \<open>holdingsleep\<close> is true when the lock is held by the calling process.
\<close>

record sleeplock =
  locked :: bool
  pid :: nat

definition holdingsleep :: "sleeplock \<Rightarrow> nat \<Rightarrow> bool" where
  "holdingsleep lk p = (locked lk \<and> pid lk = p)"

text \<open>
  Modelled from the spec: \<open>struct buf\<close> of \<open>buf.h\<close> (not among the sources), with the
  fields that \<open>bio.c\<close> reads and writes.  The \<open>next\<close> link is carried by the bucket lists.
\<close>

record buf =
  valid :: bool
  dev :: u32
  blockno :: u32
  lock :: sleeplock
  refcnt :: u32
  data :: "u8 list"
  time :: u32

datatype io = DiskRead u32 u32 | DiskWrite u32 u32

text \<open>
  The kernel state that \<open>bio.c\<close> touches: the buffers, the bucket lists, the global
  \<open>ticks\<close> counter, the disk behind \<open>virtio_disk_rw\<close> with a log of its invocations,
  and for every process the buffer whose sleep lock it is sleeping on (\<open>p->chan\<close>).
\<close>

record kstate =
  bufs :: "buf list"
  bucket :: "nat list list"
  ticks :: u32
  disk :: "u32 \<times> u32 \<Rightarrow> u8 list"
  io_log :: "io list"
  chan :: "nat \<Rightarrow> nat option"

text \<open>
  The fatal conditions.  \<open>OutOfBuffers\<close> is \<open>panic("bget: no buffers")\<close>, \<open>NotLocked\<close> is
  \<open>panic("bwrite")\<close> and \<open>panic("brelse")\<close>.  \<open>Deadlock\<close> is \<open>acquire\<close> called on a bucket
  lock that the caller already holds; \<open>Fault\<close> is the unlink loop walking off the end
  of a list.  A call that does not panic either returns (\<open>Done\<close>) or leaves the process
  asleep inside \<open>acquiresleep\<close> (\<open>Sleep\<close>).
\<close>

datatype error = OutOfBuffers | NotLocked | Deadlock | Fault

datatype 'a result = Panic error | Done 'a | Sleep 'a

definition hash :: "u32 \<Rightarrow> nat" where
  "hash blk = unat blk mod N"

definition ident :: "buf \<Rightarrow> u32 \<times> u32" where
  "ident b = (dev b, blockno b)"

subsection \<open>binit\<close>

definition zero_buf :: buf where
  "zero_buf = \<lparr>valid = False, dev = 0, blockno = 0, lock = \<lparr>locked = False, pid = 0\<rparr>,
     refcnt = 0, data = [], time = 0\<rparr>"

text \<open>
  The zero-initialised globals at boot.  \<open>NBUF\<close> is defined in \<open>param.h\<close>, which is not
  among the sources: the number \<open>nbuf\<close> of buffers is a parameter.
\<close>

definition boot :: "nat \<Rightarrow> kstate" where
  "boot nbuf = \<lparr>bufs = replicate nbuf zero_buf, bucket = replicate N [],
     ticks = 0, disk = (\<lambda>_. []), io_log = [], chan = (\<lambda>_. None)\<rparr>"

text \<open>The last loop of \<open>binit\<close> (lines 52-59).\<close>

fun binit_loop :: "nat list \<Rightarrow> nat \<Rightarrow> kstate \<Rightarrow> kstate" where
  "binit_loop [] j s = s"
| "binit_loop (i # is) j s =
     binit_loop is ((j + 1) mod N)
       (s\<lparr>bufs := (bufs s)[i := (bufs s ! i)\<lparr>blockno := of_nat j\<rparr>],
          bucket := (bucket s)[j := i # (bucket s ! j)]\<rparr>)"

definition binit :: "kstate \<Rightarrow> kstate" where
  "binit s =
     binit_loop [0..<length (bufs s)] 0
       (s\<lparr>bufs := map (\<lambda>b. b\<lparr>lock := \<lparr>locked = False, pid = 0\<rparr>\<rparr>) (bufs s)\<rparr>)"

subsection \<open>bget\<close>

text \<open>
  The scan of the bucket (lines 75-89): \<open>Inl i\<close> when buffer \<open>i\<close> caches the block,
  otherwise the local variables \<open>time\<close> and \<open>b\<close> after the loop.
\<close>

fun scan_local :: "buf list \<Rightarrow> u32 \<Rightarrow> u32 \<Rightarrow> nat list \<Rightarrow> u32 \<Rightarrow> nat option
    \<Rightarrow> nat + (u32 \<times> nat option)" where
  "scan_local bs d blk [] t b = Inr (t, b)"
| "scan_local bs d blk (i # is) t b =
     (if dev (bs ! i) = d \<and> blockno (bs ! i) = blk then Inl i
      else if refcnt (bs ! i) = 0 \<and> time (bs ! i) < t
        then scan_local bs d blk is (time (bs ! i)) (Some i)
      else scan_local bs d blk is t b)"

text \<open>The scan of the whole array (lines 105-110).\<close>

fun scan_global :: "buf list \<Rightarrow> nat list \<Rightarrow> u32 \<Rightarrow> nat option \<Rightarrow> u32 \<times> nat option" where
  "scan_global bs [] t b = (t, b)"
| "scan_global bs (i # is) t b =
     (if refcnt (bs ! i) = 0 \<and> time (bs ! i) < t
        then scan_global bs is (time (bs ! i)) (Some i)
      else scan_global bs is t b)"

text \<open>
  Taking \<open>b\<close> out of a bucket list (lines 123-130).  When \<open>b\<close> is not in the list the
  loop runs off its end and dereferences a null pointer.
\<close>

fun unlink :: "nat \<Rightarrow> nat list \<Rightarrow> nat list option" where
  "unlink b [] = None"
| "unlink b (p # ps) = (if p = b then Some ps else map_option ((#) p) (unlink b ps))"

text \<open>
  Modelled from the spec: \<open>acquiresleep\<close> of \<open>sleeplock.c\<close>.  Process \<open>p\<close> takes the
  sleep lock of buffer \<open>b\<close> when it is free, and otherwise goes to sleep on it.
\<close>

definition acquiresleep :: "kstate \<Rightarrow> nat \<Rightarrow> nat \<Rightarrow> (kstate \<times> nat) result" where
  "acquiresleep s p b =
     (if locked (lock (bufs s ! b)) then Sleep (s\<lparr>chan := (chan s)(p \<mapsto> b)\<rparr>, b)
      else Done (s\<lparr>bufs := (bufs s)[b := (bufs s ! b)\<lparr>lock := \<lparr>locked = True, pid = p\<rparr>\<rparr>]\<rparr>, b))"

text \<open>
  The global search and the migration (lines 104-146), entered with the lock of bucket
  \<open>no\<close> held.  The \<open>goto globalfind\<close> is the recursive call.
\<close>

partial_function (option) globalfind ::
    "kstate \<Rightarrow> nat \<Rightarrow> nat \<Rightarrow> u32 \<Rightarrow> u32 \<Rightarrow> u32 \<Rightarrow> nat option \<Rightarrow> (kstate \<times> nat) result option" where
  "globalfind s p no d blk t b =
     (case snd (scan_global (bufs s) [0..<length (bufs s)] t b) of
        None \<Rightarrow> Some (Panic OutOfBuffers)
      | Some c \<Rightarrow>
          (let no2 = hash (blockno (bufs s ! c)) in
           if no2 = no then Some (Panic Deadlock)
           else if refcnt (bufs s ! c) \<noteq> 0 then globalfind s p no d blk (- 1) (Some c)
           else (case unlink c (bucket s ! no2) of
                   None \<Rightarrow> Some (Panic Fault)
                 | Some l2 \<Rightarrow>
                     (let bk = (bucket s)[no2 := l2];
                          bk' = bk[no := c # (bk ! no)];
                          bs' = (bufs s)[c := (bufs s ! c)
                                  \<lparr>dev := d, blockno := blk, valid := False, refcnt := 1\<rparr>]
                      in Some (acquiresleep (s\<lparr>bucket := bk', bufs := bs'\<rparr>) p c)))))"

text \<open>\<open>bget(dev, blockno)\<close> called by process \<open>p\<close>.  \<open>None\<close> is a call that loops forever.\<close>

definition bget :: "kstate \<Rightarrow> nat \<Rightarrow> u32 \<Rightarrow> u32 \<Rightarrow> (kstate \<times> nat) result option" where
  "bget s p d blk =
     (let no = hash blk in
      case scan_local (bufs s) d blk (bucket s ! no) (- 1) None of
        Inl i \<Rightarrow>
          Some (acquiresleep
            (s\<lparr>bufs := (bufs s)[i := (bufs s ! i)\<lparr>refcnt := refcnt (bufs s ! i) + 1\<rparr>]\<rparr>) p i)
      | Inr (t, Some b) \<Rightarrow>
          Some (acquiresleep
            (s\<lparr>bufs := (bufs s)[b := (bufs s ! b)
                 \<lparr>dev := d, blockno := blk, valid := False, refcnt := 1\<rparr>]\<rparr>) p b)
      | Inr (t, None) \<Rightarrow> globalfind s p no d blk t None)"

subsection \<open>bread, bwrite, brelse, bpin, bunpin\<close>

text \<open>
  Modelled from the spec: \<open>virtio_disk_rw\<close> (not among the sources), the Device I/O
  primitive.  Reading fills the buffer's contents from the disk, writing stores them.
\<close>

definition virtio_disk_rw :: "kstate \<Rightarrow> nat \<Rightarrow> bool \<Rightarrow> kstate" where
  "virtio_disk_rw s b write =
     (let x = bufs s ! b in
      if write
        then s\<lparr>disk := (disk s)(ident x := data x), io_log := io_log s @ [DiskWrite (dev x) (blockno x)]\<rparr>
        else s\<lparr>bufs := (bufs s)[b := x\<lparr>data := disk s (ident x)\<rparr>],
               io_log := io_log s @ [DiskRead (dev x) (blockno x)]\<rparr>)"

text \<open>The part of \<open>bread\<close> after \<open>bget\<close> has returned buffer \<open>b\<close> (lines 156-161).\<close>

definition bread_tail :: "kstate \<Rightarrow> nat \<Rightarrow> kstate" where
  "bread_tail s b =
     (if \<not> valid (bufs s ! b)
        then (let s1 = virtio_disk_rw s b False
              in s1\<lparr>bufs := (bufs s1)[b := (bufs s1 ! b)\<lparr>valid := True\<rparr>]\<rparr>)
      else s)"

definition bread :: "kstate \<Rightarrow> nat \<Rightarrow> u32 \<Rightarrow> u32 \<Rightarrow> (kstate \<times> nat) result option" where
  "bread s p d blk =
     (case bget s p d blk of
        None \<Rightarrow> None
      | Some (Done (s1, b)) \<Rightarrow> Some (Done (bread_tail s1 b, b))
      | Some r \<Rightarrow> Some r)"

text \<open>
  A process asleep in \<open>acquiresleep\<close> is woken: when the lock is free it takes it, \<open>bget\<close>
  returns and \<open>bread\<close> finishes; when the lock is held it goes back to sleep.
\<close>

definition wake :: "kstate \<Rightarrow> nat \<Rightarrow> kstate" where
  "wake s p =
     (case chan s p of
        None \<Rightarrow> s
      | Some b \<Rightarrow>
          if locked (lock (bufs s ! b)) then s
          else bread_tail
                 (s\<lparr>bufs := (bufs s)[b := (bufs s ! b)\<lparr>lock := \<lparr>locked = True, pid = p\<rparr>\<rparr>],
                    chan := (chan s)(p := None)\<rparr>) b)"

definition bwrite :: "kstate \<Rightarrow> nat \<Rightarrow> nat \<Rightarrow> kstate result" where
  "bwrite s p b =
     (if \<not> holdingsleep (lock (bufs s ! b)) p then Panic NotLocked
      else Done (virtio_disk_rw s b True))"

definition brelse :: "kstate \<Rightarrow> nat \<Rightarrow> nat \<Rightarrow> kstate result" where
  "brelse s p b =
     (if \<not> holdingsleep (lock (bufs s ! b)) p then Panic NotLocked
      else
        (let x = (bufs s ! b)\<lparr>lock := \<lparr>locked = False, pid = 0\<rparr>\<rparr>;
             x1 = x\<lparr>refcnt := refcnt x - 1\<rparr>;
             x2 = (if refcnt x1 = 0 then x1\<lparr>time := ticks s\<rparr> else x1)
         in Done (s\<lparr>bufs := (bufs s)[b := x2]\<rparr>)))"

definition bpin :: "kstate \<Rightarrow> nat \<Rightarrow> kstate" where
  "bpin s b = s\<lparr>bufs := (bufs s)[b := (bufs s ! b)\<lparr>refcnt := refcnt (bufs s ! b) + 1\<rparr>]\<rparr>"

definition bunpin :: "kstate \<Rightarrow> nat \<Rightarrow> kstate" where
  "bunpin s b = s\<lparr>bufs := (bufs s)[b := (bufs s ! b)\<lparr>refcnt := refcnt (bufs s ! b) - 1\<rparr>]\<rparr>"

subsection \<open>The kernel as a transition system\<close>

text \<open>
  Modelled from the spec: the Tick Counter.  The timer interrupt increments \<open>ticks\<close>.
\<close>

definition tick :: "kstate \<Rightarrow> kstate" where
  "tick s = s\<lparr>ticks := ticks s + 1\<rparr>"

text \<open>
  One step of the kernel: a call of the cache interface by a process, executed without
  interruption, the wake-up of a sleeping process, or a timer tick.
\<close>

datatype call =
    Bread nat u32 u32
  | Wake nat
  | Bwrite nat nat
  | Brelse nat nat
  | Bpin nat
  | Bunpin nat
  | Tick

fun state_of :: "'a result \<Rightarrow> 'a option" where
  "state_of (Panic e) = None"
| "state_of (Done s) = Some s"
| "state_of (Sleep s) = Some s"

fun kstep :: "kstate \<Rightarrow> call \<Rightarrow> kstate result option" where
  "kstep s (Bread p d blk) = map_option (map_result fst) (bread s p d blk)"
| "kstep s (Wake p) = Some (Done (wake s p))"
| "kstep s (Bwrite p b) = Some (bwrite s p b)"
| "kstep s (Brelse p b) = Some (brelse s p b)"
| "kstep s (Bpin b) = Some (Done (bpin s b))"
| "kstep s (Bunpin b) = Some (Done (bunpin s b))"
| "kstep s Tick = Some (Done (tick s))"

text \<open>
  The references to buffer \<open>b\<close> that \<open>bget\<close> has handed out and \<open>brelse\<close> has not taken
  back: the holder of the sleep lock and the processes asleep on it.  The rest of
  \<open>refcnt\<close> are the pins.
\<close>

definition holders :: "kstate \<Rightarrow> nat \<Rightarrow> nat" where
  "holders s b = (if locked (lock (bufs s ! b)) then 1 else 0) + card {p. chan s p = Some b}"

definition pins :: "kstate \<Rightarrow> nat \<Rightarrow> nat" where
  "pins s b = unat (refcnt (bufs s ! b)) - holders s b"

text \<open>
  The calls of well-behaved callers: one of \<open>nproc\<close> processes, not asleep, fetches a
  block, or writes or releases a buffer of the array; a buffer in use is pinned, unless
  its pins are about to exhaust the 32 bits of \<open>refcnt\<close>; a pinned buffer is unpinned.
\<close>

fun permitted :: "nat \<Rightarrow> kstate \<Rightarrow> call \<Rightarrow> bool" where
  "permitted nproc s (Bread p d blk) = (p < nproc \<and> chan s p = None)"
| "permitted nproc s (Wake p) = True"
| "permitted nproc s (Bwrite p b) = (p < nproc \<and> chan s p = None \<and> b < length (bufs s))"
| "permitted nproc s (Brelse p b) = (p < nproc \<and> chan s p = None \<and> b < length (bufs s))"
| "permitted nproc s (Bpin b) =
     (b < length (bufs s) \<and> refcnt (bufs s ! b) \<noteq> 0 \<and> pins s b + nproc + 2 < 2 ^ 32)"
| "permitted nproc s (Bunpin b) = (b < length (bufs s) \<and> 0 < pins s b)"
| "permitted nproc s Tick = True"

text \<open>
  The states reached from \<open>binit\<close> on a cache of \<open>nbuf\<close> buffers by steps that do not
  panic.
\<close>

inductive reachable :: "nat \<Rightarrow> nat \<Rightarrow> kstate \<Rightarrow> bool" for nbuf nproc where
  init: "reachable nbuf nproc (binit (boot nbuf))"
| step: "reachable nbuf nproc s \<Longrightarrow> permitted nproc s c \<Longrightarrow> kstep s c = Some r \<Longrightarrow>
         state_of r = Some s' \<Longrightarrow> reachable nbuf nproc s'"

text \<open>
  A sequence of steps of well-behaved callers, and a sequence of steps of any callers;
  \<open>None\<close> when a step panics.
\<close>

fun run :: "nat \<Rightarrow> kstate \<Rightarrow> call list \<Rightarrow> kstate option" where
  "run n s [] = Some s"
| "run n s (c # cs) =
     (if permitted n s c
        then (case kstep s c of
                None \<Rightarrow> None
              | Some r \<Rightarrow> (case state_of r of None \<Rightarrow> None | Some s' \<Rightarrow> run n s' cs))
      else None)"

fun exec :: "kstate \<Rightarrow> call list \<Rightarrow> kstate option" where
  "exec s [] = Some s"
| "exec s (c # cs) =
     (case kstep s c of
        None \<Rightarrow> None
      | Some r \<Rightarrow> (case state_of r of None \<Rightarrow> None | Some s' \<Rightarrow> exec s' cs))"

subsection \<open>Invariants\<close>

text \<open>Bucket \<open>j\<close> lists, once each, exactly the buffers whose \<open>blockno % N\<close> is \<open>j\<close>.\<close>

definition partitioned :: "kstate \<Rightarrow> bool" where
  "partitioned s \<longleftrightarrow> length (bucket s) = N \<and>
     (\<forall>j<N. distinct (bucket s ! j) \<and>
        set (bucket s ! j) = {i. i < length (bufs s) \<and> hash (blockno (bufs s ! i)) = j})"

text \<open>The buffer that a walk through list \<open>l\<close> finds for block \<open>(d, blk)\<close>.\<close>

definition cached :: "buf list \<Rightarrow> u32 \<Rightarrow> u32 \<Rightarrow> nat list \<Rightarrow> nat option" where
  "cached bs d blk l = find (\<lambda>k. dev (bs ! k) = d \<and> blockno (bs ! k) = blk) l"

text \<open>
  A buffer that is in use, or whose contents are valid, is the one that a lookup of its
  own block finds.
\<close>

definition ordered :: "kstate \<Rightarrow> bool" where
  "ordered s \<longleftrightarrow>
     (\<forall>j<N. \<forall>k \<in> set (bucket s ! j). refcnt (bufs s ! k) \<noteq> 0 \<or> valid (bufs s ! k) \<longrightarrow>
        cached (bufs s) (dev (bufs s ! k)) (blockno (bufs s ! k)) (bucket s ! j) = Some k)"

text \<open>
  \<open>refcnt\<close> counts the holder of the sleep lock, the processes asleep on it and the pins;
  the pins leave room for every process to fetch the buffer.
\<close>

definition counted :: "nat \<Rightarrow> kstate \<Rightarrow> bool" where
  "counted nproc s \<longleftrightarrow>
     (\<forall>p b. chan s p = Some b \<longrightarrow> p < nproc \<and> b < length (bufs s)) \<and>
     (\<forall>b<length (bufs s).
        holders s b \<le> unat (refcnt (bufs s ! b)) \<and> pins s b + nproc + 1 < 2 ^ 32)"

subsection \<open>bget, step by step\<close>

text \<open>
  \<open>bget\<close> step by step, for calls of several processes that overlap.  The kernel state
  is extended by the holders of the spin locks \<open>bucket[i].lock\<close> and \<open>bcache.lock\<close>.
\<close>

record cstate =
  mem :: kstate
  bucket_lock :: "nat \<Rightarrow> nat option"
  bcache_lock :: "nat option"

text \<open>
  Where a process is inside \<open>bget\<close>, with the local variables \<open>time\<close> and \<open>b\<close> that are
  live there:
  \<^item> \<open>Start\<close>: at line 72, before \<open>acquire(&bucket[no].lock)\<close>;
  \<^item> \<open>Escalated t\<close>: at line 103, holding the bucket lock, before \<open>acquire(&bcache.lock)\<close>;
  \<^item> \<open>Scanning t b\<close>: at the label \<open>globalfind\<close>, holding both locks;
  \<^item> \<open>Candidate b no2\<close>: at line 115, before \<open>acquire(&bucket[no2].lock)\<close>, with the
    \<open>no2\<close> computed at line 114;
  \<^item> \<open>Unlinked b\<close>: at line 133, after \<open>release(&bucket[no2].lock)\<close>;
  \<^item> \<open>Linked b\<close>: at line 137, after \<open>release(&bcache.lock)\<close>;
  \<^item> \<open>Locking b\<close>: before \<open>acquiresleep(&b->lock)\<close>, all spin locks released;
  \<^item> \<open>Returned b\<close> and \<open>Panicked e\<close>: the call is over.
\<close>

datatype pc =
    Start
  | Escalated u32
  | Scanning u32 "nat option"
  | Candidate nat nat
  | Unlinked nat
  | Linked nat
  | Locking nat
  | Returned nat
  | Panicked error

text \<open>
  One step of process \<open>p\<close> inside \<open>bget(d, blk)\<close>: the code from one operation on a spin
  lock to the next.  \<open>None\<close> when the process cannot move: it spins on a lock that
  another process holds, it sleeps, or its call is over.  Modelled from the spec:
  \<open>acquire\<close> of \<open>spinlock.c\<close>, which waits for a lock held by another process and never
  succeeds on a lock that the caller holds itself (\<open>Deadlock\<close>).
\<close>

fun bget_step :: "nat \<Rightarrow> u32 \<Rightarrow> u32 \<Rightarrow> cstate \<Rightarrow> pc \<Rightarrow> (cstate \<times> pc) option" where
  "bget_step p d blk c Start =
     (let no = hash blk; s = mem c in
      case bucket_lock c no of
        Some q \<Rightarrow> if q = p then Some (c, Panicked Deadlock) else None
      | None \<Rightarrow>
          (case scan_local (bufs s) d blk (bucket s ! no) (- 1) None of
             Inl i \<Rightarrow>
               Some (c\<lparr>mem := s\<lparr>bufs := (bufs s)[i := (bufs s ! i)
                       \<lparr>refcnt := refcnt (bufs s ! i) + 1\<rparr>]\<rparr>\<rparr>, Locking i)
           | Inr (t, Some b) \<Rightarrow>
               Some (c\<lparr>mem := s\<lparr>bufs := (bufs s)[b := (bufs s ! b)
                       \<lparr>dev := d, blockno := blk, valid := False, refcnt := 1\<rparr>]\<rparr>\<rparr>, Locking b)
           | Inr (t, None) \<Rightarrow>
               Some (c\<lparr>bucket_lock := (bucket_lock c)(no \<mapsto> p)\<rparr>, Escalated t)))"
| "bget_step p d blk c (Escalated t) =
     (case bcache_lock c of
        Some q \<Rightarrow> if q = p then Some (c, Panicked Deadlock) else None
      | None \<Rightarrow> Some (c\<lparr>bcache_lock := Some p\<rparr>, Scanning t None))"
| "bget_step p d blk c (Scanning t b) =
     (let s = mem c in
      case snd (scan_global (bufs s) [0..<length (bufs s)] t b) of
        None \<Rightarrow> Some (c, Panicked OutOfBuffers)
      | Some b' \<Rightarrow> Some (c, Candidate b' (hash (blockno (bufs s ! b')))))"
| "bget_step p d blk c (Candidate b no2) =
     (let s = mem c in
      case bucket_lock c no2 of
        Some q \<Rightarrow> if q = p then Some (c, Panicked Deadlock) else None
      | None \<Rightarrow>
          if refcnt (bufs s ! b) \<noteq> 0 then Some (c, Scanning (- 1) (Some b))
          else (case unlink b (bucket s ! no2) of
                  None \<Rightarrow> Some (c, Panicked Fault)
                | Some l2 \<Rightarrow> Some (c\<lparr>mem := s\<lparr>bucket := (bucket s)[no2 := l2]\<rparr>\<rparr>, Unlinked b)))"
| "bget_step p d blk c (Unlinked b) =
     (let s = mem c; no = hash blk in
      Some (c\<lparr>mem := s\<lparr>bucket := (bucket s)[no := b # (bucket s ! no)]\<rparr>,
              bcache_lock := None\<rparr>, Linked b))"
| "bget_step p d blk c (Linked b) =
     (let s = mem c; no = hash blk in
      Some (c\<lparr>mem := s\<lparr>bufs := (bufs s)[b := (bufs s ! b)
                \<lparr>dev := d, blockno := blk, valid := False, refcnt := 1\<rparr>]\<rparr>,
              bucket_lock := (bucket_lock c)(no := None)\<rparr>, Locking b))"
| "bget_step p d blk c (Locking b) =
     (let s = mem c in
      if locked (lock (bufs s ! b)) then None
      else Some (c\<lparr>mem := s\<lparr>bufs := (bufs s)[b := (bufs s ! b)
                     \<lparr>lock := \<lparr>locked = True, pid = p\<rparr>\<rparr>]\<rparr>\<rparr>, Returned b))"
| "bget_step p d blk c (Returned b) = None"
| "bget_step p d blk c (Panicked e) = None"

text \<open>
  The processes that are inside \<open>bget\<close>: the caller, the arguments and the place.  A
  schedule names, step by step, the process that moves.
\<close>

record thread =
  tpid :: nat
  tdev :: u32
  tblk :: u32
  tpc :: pc

fun sched :: "cstate \<Rightarrow> thread list \<Rightarrow> nat list \<Rightarrow> (cstate \<times> thread list) option" where
  "sched c ths [] = Some (c, ths)"
| "sched c ths (i # is) =
     (if i < length ths
        then (case bget_step (tpid (ths ! i)) (tdev (ths ! i)) (tblk (ths ! i)) c (tpc (ths ! i)) of
                None \<Rightarrow> None
              | Some (c', pc') \<Rightarrow> sched c' (ths[i := (ths ! i)\<lparr>tpc := pc'\<rparr>]) is)
      else None)"

text \<open>A kernel state with all spin locks free.\<close>

definition unlocked :: "kstate \<Rightarrow> cstate" where
  "unlocked s = \<lparr>mem = s, bucket_lock = (\<lambda>_. None), bcache_lock = None\<rparr>"

text \<open>A process that runs alone: \<open>n\<close> steps, or fewer when it cannot move.\<close>

fun solo :: "nat \<Rightarrow> nat \<Rightarrow> u32 \<Rightarrow> u32 \<Rightarrow> cstate \<Rightarrow> pc \<Rightarrow> cstate \<times> pc" where
  "solo 0 p d blk c l = (c, l)"
| "solo (Suc n) p d blk c l =
     (case bget_step p d blk c l of None \<Rightarrow> (c, l) | Some (c', l') \<Rightarrow> solo n p d blk c' l')"

subsection \<open>Auxiliary definitions for the proofs\<close>

text \<open>
  The states in which \<open>bget\<close> calls \<open>acquiresleep\<close>: the block was cached in buffer \<open>i\<close>
  (lines 79-80), a free buffer \<open>b\<close> of the bucket was reclaimed (lines 94-98), or a free
  buffer \<open>c\<close> was moved from its bucket to the caller's (lines 123-141).
\<close>

definition hit :: "kstate \<Rightarrow> nat \<Rightarrow> kstate" where
  "hit s i = s\<lparr>bufs := (bufs s)[i := (bufs s ! i)\<lparr>refcnt := refcnt (bufs s ! i) + 1\<rparr>]\<rparr>"

definition reclaim :: "kstate \<Rightarrow> nat \<Rightarrow> u32 \<Rightarrow> u32 \<Rightarrow> kstate" where
  "reclaim s b d blk = s\<lparr>bufs := (bufs s)[b := (bufs s ! b)
                 \<lparr>dev := d, blockno := blk, valid := False, refcnt := 1\<rparr>]\<rparr>"

definition migrate :: "kstate \<Rightarrow> nat \<Rightarrow> u32 \<Rightarrow> u32 \<Rightarrow> kstate" where
  "migrate s c d blk =
     (let no2 = hash (blockno (bufs s ! c)); no = hash blk;
          bk = (bucket s)[no2 := remove1 c (bucket s ! no2)]
      in s\<lparr>bucket := bk[no := c # (bk ! no)],
           bufs := (bufs s)[c := (bufs s ! c)\<lparr>dev := d, blockno := blk, valid := False, refcnt := 1\<rparr>]\<rparr>)"

text \<open>States that agree on every field that the invariants read.\<close>

definition same_ctl :: "kstate \<Rightarrow> kstate \<Rightarrow> bool" where
  "same_ctl s s' \<longleftrightarrow> bucket s' = bucket s \<and> chan s' = chan s \<and> length (bufs s') = length (bufs s) \<and>
     (\<forall>k. dev (bufs s' ! k) = dev (bufs s ! k) \<and> blockno (bufs s' ! k) = blockno (bufs s ! k) \<and>
          refcnt (bufs s' ! k) = refcnt (bufs s ! k) \<and> lock (bufs s' ! k) = lock (bufs s ! k) \<and>
          valid (bufs s' ! k) = valid (bufs s ! k))"

text \<open>The invariant of the reachable states.\<close>

definition cache_inv :: "nat \<Rightarrow> kstate \<Rightarrow> bool" where
  "cache_inv n s \<longleftrightarrow> partitioned s \<and> ordered s \<and> counted n s"

text \<open>The last loop of \<open>binit\<close> after \<open>m\<close> iterations.\<close>

definition filled :: "nat \<Rightarrow> kstate \<Rightarrow> bool" where
  "filled m s \<longleftrightarrow>
     (\<forall>j<N. distinct (bucket s ! j) \<and> set (bucket s ! j) = {i. i < m \<and> i mod N = j}) \<and>
     (\<forall>i<m. blockno (bufs s ! i) = of_nat (i mod N))"

definition fetch_call :: "nat \<times> u32 \<times> u32 \<Rightarrow> call" where
  "fetch_call x = Bread (fst x) (fst (snd x)) (snd (snd x))"

text \<open>The buffers in use.\<close>

definition used :: "kstate \<Rightarrow> nat set" where
  "used s = {k. k < length (bufs s) \<and> refcnt (bufs s ! k) \<noteq> 0}"

text \<open>
  The states of a run of fetches of the blocks \<open>S\<close> without any release or tick: no
  buffer has been stamped, a locked buffer is in use and a buffer in use caches a block
  of \<open>S\<close>.
\<close>

definition fetched :: "(u32 \<times> u32) set \<Rightarrow> kstate \<Rightarrow> bool" where
  "fetched S s \<longleftrightarrow> partitioned s \<and>
     (\<forall>k<length (bufs s). time (bufs s ! k) = 0 \<and>
        (locked (lock (bufs s ! k)) \<longrightarrow> refcnt (bufs s ! k) \<noteq> 0) \<and>
        (refcnt (bufs s ! k) \<noteq> 0 \<longrightarrow> (dev (bufs s ! k), blockno (bufs s ! k)) \<in> S))"

subsection \<open>Example states\<close>

text \<open>
  An example state: a cache of three buffers after process 0 has fetched block 0 and
  process 1 block 1 of device 0.
\<close>

definition two_held :: kstate where
  "two_held =
     \<lparr>bufs = [\<lparr>valid = True, dev = 0, blockno = 0, lock = \<lparr>locked = True, pid = 0\<rparr>,
                refcnt = 1, data = [], time = 0\<rparr>,
              \<lparr>valid = True, dev = 0, blockno = 1, lock = \<lparr>locked = True, pid = 1\<rparr>,
                refcnt = 1, data = [], time = 0\<rparr>,
              \<lparr>valid = False, dev = 0, blockno = 2, lock = \<lparr>locked = False, pid = 0\<rparr>,
                refcnt = 0, data = [], time = 0\<rparr>],
      bucket = [[0], [1], [2], [], [], [], [], [], [], [], [], [], []],
      ticks = 0, disk = (\<lambda>_. []), io_log = [DiskRead 0 0, DiskRead 0 1], chan = (\<lambda>_. None)\<rparr>"

text \<open>
  An example state: \<open>two_held\<close> after process 2 has fetched block 3 of device 0, for
  which buffer 2 has migrated from bucket 2 to bucket 3.
\<close>

definition migrated :: kstate where
  "migrated =
     \<lparr>bufs = [\<lparr>valid = True, dev = 0, blockno = 0, lock = \<lparr>locked = True, pid = 0\<rparr>,
                refcnt = 1, data = [], time = 0\<rparr>,
              \<lparr>valid = True, dev = 0, blockno = 1, lock = \<lparr>locked = True, pid = 1\<rparr>,
                refcnt = 1, data = [], time = 0\<rparr>,
              \<lparr>valid = True, dev = 0, blockno = 3, lock = \<lparr>locked = True, pid = 2\<rparr>,
                refcnt = 1, data = [], time = 0\<rparr>],
      bucket = [[0], [1], [], [2], [], [], [], [], [], [], [], [], []],
      ticks = 0, disk = (\<lambda>_. []), io_log = [DiskRead 0 0, DiskRead 0 1, DiskRead 0 3],
      chan = (\<lambda>_. None)\<rparr>"

text \<open>
  An example state: a cache of three buffers after process 0 has fetched block 0 of
  device 0.
\<close>

definition one_held :: kstate where
  "one_held =
     \<lparr>bufs = [\<lparr>valid = True, dev = 0, blockno = 0, lock = \<lparr>locked = True, pid = 0\<rparr>,
                refcnt = 1, data = [], time = 0\<rparr>,
              \<lparr>valid = False, dev = 0, blockno = 1, lock = \<lparr>locked = False, pid = 0\<rparr>,
                refcnt = 0, data = [], time = 0\<rparr>,
              \<lparr>valid = False, dev = 0, blockno = 2, lock = \<lparr>locked = False, pid = 0\<rparr>,
                refcnt = 0, data = [], time = 0\<rparr>],
      bucket = [[0], [1], [2], [], [], [], [], [], [], [], [], [], []],
      ticks = 0, disk = (\<lambda>_. []), io_log = [DiskRead 0 0], chan = (\<lambda>_. None)\<rparr>"

text \<open>
  Example states: \<open>one_held\<close> after process 0 has pinned buffer 0 \<open>2 ^ 32 - 1\<close> times, and
  the same after process 2 has called \<open>bread(0, 13)\<close>.
\<close>

definition wrapped :: kstate where
  "wrapped = one_held\<lparr>bufs := (bufs one_held)[0 := (bufs one_held ! 0)\<lparr>refcnt := 0\<rparr>]\<rparr>"

definition stolen :: kstate where
  "stolen = wrapped\<lparr>bufs := (bufs wrapped)[0 := (bufs wrapped ! 0)
               \<lparr>dev := 0, blockno := 13, valid := False, refcnt := 1\<rparr>],
             chan := (chan wrapped)(2 \<mapsto> 0)\<rparr>"

text \<open>
  An example state: a cache of three buffers in which process 0 has fetched block 0,
  pinned it and, one tick later, released it; one more tick has passed.
\<close>

definition pinned :: kstate where
  "pinned =
     \<lparr>bufs = [\<lparr>valid = True, dev = 0, blockno = 0, lock = \<lparr>locked = False, pid = 0\<rparr>,
                refcnt = 1, data = [], time = 0\<rparr>,
              \<lparr>valid = False, dev = 0, blockno = 1, lock = \<lparr>locked = False, pid = 0\<rparr>,
                refcnt = 0, data = [], time = 0\<rparr>,
              \<lparr>valid = False, dev = 0, blockno = 2, lock = \<lparr>locked = False, pid = 0\<rparr>,
                refcnt = 0, data = [], time = 0\<rparr>],
      bucket = [[0], [1], [2], [], [], [], [], [], [], [], [], [], []],
      ticks = 2, disk = (\<lambda>_. []), io_log = [DiskRead 0 0], chan = (\<lambda>_. None)\<rparr>"

text \<open>
  Example states: a cache of three buffers, each fetched by a process of its own, and
  the same cache after process 0 has released buffer 0 at tick \<open>0xFFFFFFFF\<close>.
\<close>

definition three_held :: kstate where
  "three_held =
     \<lparr>bufs = [\<lparr>valid = True, dev = 0, blockno = 0, lock = \<lparr>locked = True, pid = 0\<rparr>,
                refcnt = 1, data = [], time = 0\<rparr>,
              \<lparr>valid = True, dev = 0, blockno = 1, lock = \<lparr>locked = True, pid = 1\<rparr>,
                refcnt = 1, data = [], time = 0\<rparr>,
              \<lparr>valid = True, dev = 0, blockno = 2, lock = \<lparr>locked = True, pid = 2\<rparr>,
                refcnt = 1, data = [], time = 0\<rparr>],
      bucket = [[0], [1], [2], [], [], [], [], [], [], [], [], [], []],
      ticks = 0, disk = (\<lambda>_. []), io_log = [DiskRead 0 0, DiskRead 0 1, DiskRead 0 2],
      chan = (\<lambda>_. None)\<rparr>"

definition stale :: kstate where
  "stale =
     \<lparr>bufs = [\<lparr>valid = True, dev = 0, blockno = 0, lock = \<lparr>locked = False, pid = 0\<rparr>,
                refcnt = 0, data = [], time = - 1\<rparr>,
              \<lparr>valid = True, dev = 0, blockno = 1, lock = \<lparr>locked = True, pid = 1\<rparr>,
                refcnt = 1, data = [], time = 0\<rparr>,
              \<lparr>valid = True, dev = 0, blockno = 2, lock = \<lparr>locked = True, pid = 2\<rparr>,
                refcnt = 1, data = [], time = 0\<rparr>],
      bucket = [[0], [1], [2], [], [], [], [], [], [], [], [], [], []],
      ticks = - 1, disk = (\<lambda>_. []), io_log = [DiskRead 0 0, DiskRead 0 1, DiskRead 0 2],
      chan = (\<lambda>_. None)\<rparr>"

text \<open>
  Example states: \<open>one_held\<close> after process 1 has called \<open>bread(0, 0)\<close> and gone to sleep
  on buffer 0, and the same after process 0 has released buffer 0.
\<close>

definition queued :: kstate where
  "queued = one_held\<lparr>bufs := (bufs one_held)[0 := (bufs one_held ! 0)\<lparr>refcnt := 2\<rparr>],
              chan := (chan one_held)(1 \<mapsto> 0)\<rparr>"

definition handed :: kstate where
  "handed = queued\<lparr>bufs := (bufs queued)
              [0 := (bufs queued ! 0)\<lparr>refcnt := 1, lock := \<lparr>locked = False, pid = 0\<rparr>\<rparr>]\<rparr>"

text \<open>
  An example state: \<open>stolen\<close> after process 0 has released buffer 0, on which process 2
  is asleep and which is not valid.
\<close>

definition vacated :: kstate where
  "vacated = stolen\<lparr>bufs := (bufs stolen)
               [0 := (bufs stolen ! 0)\<lparr>lock := \<lparr>locked = False, pid = 0\<rparr>, refcnt := 0\<rparr>]\<rparr>"

text \<open>
  An example state: from \<open>two_held\<close>, process 2, inside \<open>bget(0, 13)\<close>, holds the lock of
  bucket 0 and \<open>bcache.lock\<close>; its scan had selected buffer 2, the only free one, and
  process 3 has fetched block 2 since, so that every buffer is in use.
\<close>

definition spinning :: cstate where
  "spinning =
     \<lparr>mem = two_held\<lparr>bufs := (bufs two_held)
              [2 := (bufs two_held ! 2)\<lparr>refcnt := 1, lock := \<lparr>locked = True, pid = 3\<rparr>\<rparr>]\<rparr>,
      bucket_lock = (\<lambda>_. None)(0 \<mapsto> 2), bcache_lock = Some 2\<rparr>"

text \<open>
  Example states.  \<open>warm\<close> is a cache of 30 buffers in which processes 3, 4, 5 and 6 hold
  blocks 12, 25, 0 and 13 of device 0, so that bucket 12 has no free buffer and buffer 0
  is the only free buffer of bucket 0.  In \<open>raced\<close>, process 2, inside \<open>bget(0, 38)\<close>, has
  moved buffer 0 from bucket 0 to bucket 12 and released \<open>bcache.lock\<close> (line 135), and
  process 1, inside \<open>bget(0, 26)\<close>, holds the lock of bucket 0 and \<open>bcache.lock\<close>.
\<close>

definition held :: "nat \<Rightarrow> u32 \<Rightarrow> u32 \<Rightarrow> buf" where
  "held p d blk = \<lparr>valid = True, dev = d, blockno = blk, lock = \<lparr>locked = True, pid = p\<rparr>,
     refcnt = 1, data = [], time = 0\<rparr>"

definition warm :: kstate where
  "warm = (binit (boot 30))
     \<lparr>bufs := (bufs (binit (boot 30)))
         [25 := held 3 0 12, 12 := held 4 0 25, 26 := held 5 0 0, 13 := held 6 0 13],
      io_log := [DiskRead 0 12, DiskRead 0 25, DiskRead 0 0, DiskRead 0 13]\<rparr>"

definition raced :: cstate where
  "raced = \<lparr>mem = warm\<lparr>bucket := (bucket warm)[0 := [26, 13], 12 := [0, 25, 12]]\<rparr>,
     bucket_lock = (\<lambda>_. None)(12 \<mapsto> 2, 0 \<mapsto> 1), bcache_lock = Some 1\<rparr>"

section \<open>Lemmas\<close>

subsection \<open>The scans and the outcomes of bget\<close>

lemma scan_global_None:
  "snd (scan_global bs l t b) = None \<longleftrightarrow>
     b = None \<and> (\<forall>k \<in> set l. \<not> (refcnt (bs ! k) = 0 \<and> time (bs ! k) < t))"
  by (induction l arbitrary: t b) (auto dest: order.strict_trans)

lemma scan_global_gen:
  "scan_global bs l t b = (t', b') \<Longrightarrow>
     (b' = b \<and> t' = t) \<or>
     (\<exists>c. b' = Some c \<and> c \<in> set l \<and> refcnt (bs ! c) = 0 \<and> time (bs ! c) = t' \<and> t' < t)"
  by (induction l arbitrary: t b) (auto split: if_splits dest: order.strict_trans)

lemma scan_global_Some:
  assumes "snd (scan_global bs l t None) = Some c"
  shows "c \<in> set l \<and> refcnt (bs ! c) = 0 \<and> time (bs ! c) < t"
proof -
  obtain t' where "scan_global bs l t None = (t', Some c)"
    using assms by (cases "scan_global bs l t None") simp
  from scan_global_gen[OF this] show ?thesis by auto
qed

lemma scan_local_cached_Some:
  "cached bs d blk l = Some i \<Longrightarrow> scan_local bs d blk l t b = Inl i"
  by (induction l arbitrary: t b) (auto simp: cached_def split: if_splits)

lemma scan_local_cached_None:
  "cached bs d blk l = None \<Longrightarrow> scan_local bs d blk l t b = Inr (scan_global bs l t b)"
  by (induction l arbitrary: t b) (auto simp: cached_def split: if_splits)

lemma unlink_remove1: "b \<in> set l \<Longrightarrow> unlink b l = Some (remove1 b l)"
  by (induction l) auto

lemma unlink_None: "b \<notin> set l \<Longrightarrow> unlink b l = None"
  by (induction l) auto

lemma hash_less: "hash x < N"
  by (simp add: hash_def N_def)

lemma bget_hit:
  "cached (bufs s) d blk (bucket s ! hash blk) = Some i \<Longrightarrow>
   bget s p d blk = Some (acquiresleep (hit s i) p i)"
  by (simp add: bget_def hit_def scan_local_cached_Some)

lemma bget_local:
  assumes "cached (bufs s) d blk (bucket s ! hash blk) = None"
    and "snd (scan_global (bufs s) (bucket s ! hash blk) (- 1) None) = Some b"
  shows "bget s p d blk = Some (acquiresleep (reclaim s b d blk) p b)"
proof -
  obtain t where "scan_global (bufs s) (bucket s ! hash blk) (- 1) None = (t, Some b)"
    using assms(2) by (cases "scan_global (bufs s) (bucket s ! hash blk) (- 1) None") simp
  then show ?thesis
    using assms(1) by (simp add: bget_def reclaim_def scan_local_cached_None)
qed

lemma bget_escalate:
  assumes "cached (bufs s) d blk (bucket s ! hash blk) = None"
    and "snd (scan_global (bufs s) (bucket s ! hash blk) (- 1) None) = None"
  shows "bget s p d blk = globalfind s p (hash blk) d blk (- 1) None"
proof -
  obtain t b where sg: "scan_global (bufs s) (bucket s ! hash blk) (- 1) None = (t, b)"
    by (cases "scan_global (bufs s) (bucket s ! hash blk) (- 1) None")
  with assms(2) have b: "b = None" by simp
  from scan_global_gen[OF sg] b have "t = - 1" by auto
  with sg b assms(1) show ?thesis
    by (simp add: bget_def scan_local_cached_None)
qed

lemma wf_bucket_mem:
  "partitioned s \<Longrightarrow> i < length (bufs s) \<Longrightarrow> i \<in> set (bucket s ! hash (blockno (bufs s ! i)))"
  using hash_less by (simp add: partitioned_def)

lemma globalfind_panic:
  assumes "snd (scan_global (bufs s) [0..<length (bufs s)] t None) = None"
  shows "globalfind s p no d blk t None = Some (Panic OutOfBuffers)"
  by (subst globalfind.simps) (simp add: assms)

lemma globalfind_migrate:
  assumes "partitioned s"
    and "snd (scan_global (bufs s) [0..<length (bufs s)] t None) = Some c"
    and "hash (blockno (bufs s ! c)) \<noteq> no"
  shows "no = hash blk \<Longrightarrow> globalfind s p no d blk t None = Some (acquiresleep (migrate s c d blk) p c)"
proof -
  assume no: "no = hash blk"
  from scan_global_Some[OF assms(2)] have c: "c < length (bufs s)" "refcnt (bufs s ! c) = 0"
    by auto
  from wf_bucket_mem[OF assms(1) c(1)]
  have "unlink c (bucket s ! hash (blockno (bufs s ! c))) =
          Some (remove1 c (bucket s ! hash (blockno (bufs s ! c))))"
    by (rule unlink_remove1)
  then show ?thesis
    using assms(2,3) c no
    by (subst globalfind.simps) (simp add: Let_def migrate_def)
qed

text \<open>
  When the caller's bucket has no buffer to reclaim, the buffer that the scan of the whole
  array selects is in another bucket.
\<close>
lemma escalate_other_bucket:
  assumes "partitioned s"
    and "snd (scan_global (bufs s) (bucket s ! no) t None) = None"
    and "snd (scan_global (bufs s) [0..<length (bufs s)] t None) = Some c"
    and "no < N"
  shows "hash (blockno (bufs s ! c)) \<noteq> no"
proof
  assume h: "hash (blockno (bufs s ! c)) = no"
  from scan_global_Some[OF assms(3)]
  have c: "c < length (bufs s)" "refcnt (bufs s ! c) = 0" "time (bufs s ! c) < t" by auto
  from wf_bucket_mem[OF assms(1) c(1)] h have "c \<in> set (bucket s ! no)" by simp
  with assms(2) c show False by (simp add: scan_global_None)
qed


subsection \<open>Lookup in a bucket\<close>

lemma cached_cong:
  "(\<And>k. k \<in> set l \<Longrightarrow> dev (bs' ! k) = dev (bs ! k) \<and> blockno (bs' ! k) = blockno (bs ! k)) \<Longrightarrow>
   cached bs' d blk l = cached bs d blk l"
  by (induction l) (auto simp: cached_def)

lemma cached_Some_mem: "cached bs d blk l = Some k \<Longrightarrow> k \<in> set l \<and> dev (bs ! k) = d \<and> blockno (bs ! k) = blk"
  by (induction l) (auto simp: cached_def split: if_splits)

lemma cached_None_iff: "cached bs d blk l = None \<longleftrightarrow> (\<forall>k \<in> set l. \<not> (dev (bs ! k) = d \<and> blockno (bs ! k) = blk))"
  by (induction l) (auto simp: cached_def)

lemma cached_upd_notin: "b \<notin> set l \<Longrightarrow> cached (bs[b := x]) d blk l = cached bs d blk l"
  by (induction l) (auto simp: cached_def)

lemma cached_remove1:
  "cached bs d blk l = Some k \<Longrightarrow> k \<noteq> c \<Longrightarrow> cached bs d blk (remove1 c l) = Some k"
  by (induction l) (auto simp: cached_def split: if_splits)

lemma cached_upd_new:
  "cached bs d blk l = None \<Longrightarrow> b \<in> set l \<Longrightarrow> b < length bs \<Longrightarrow> dev x = d \<Longrightarrow> blockno x = blk \<Longrightarrow>
   cached (bs[b := x]) d blk l = Some b"
proof (induction l)
  case Nil then show ?case by simp
next
  case (Cons a l)
  show ?case
  proof (cases "a = b")
    case True
    with Cons.prems show ?thesis by (simp add: cached_def)
  next
    case False
    with Cons.prems have "cached bs d blk l = None" "b \<in> set l"
      "\<not> (dev (bs ! a) = d \<and> blockno (bs ! a) = blk)"
      by (auto simp: cached_def split: if_splits)
    with Cons.IH Cons.prems False show ?thesis
      by (simp add: cached_def)
  qed
qed

lemma cached_upd_other:
  "cached bs d blk l = Some k \<Longrightarrow> k \<noteq> b \<Longrightarrow> \<not> (dev x = d \<and> blockno x = blk) \<Longrightarrow>
   cached (bs[b := x]) d blk l = Some k"
proof (induction l)
  case Nil then show ?case by (simp add: cached_def)
next
  case (Cons a l)
  show ?case
  proof (cases "a = b")
    case True
    with Cons.prems have r: "cached bs d blk l = Some k"
      by (auto simp: cached_def split: if_splits)
    show ?thesis
    proof (cases "b < length bs")
      case True
      with Cons.IH[OF r Cons.prems(2,3)] \<open>a = b\<close> Cons.prems(3) show ?thesis
        by (auto simp: cached_def)
    next
      case False
      then have "bs[b := x] = bs" by (simp add: list_update_beyond)
      with Cons.prems show ?thesis by simp
    qed
  next
    case False
    with Cons.prems Cons.IH show ?thesis
      by (auto simp: cached_def split: if_splits)
  qed
qed

lemma same_ctl_wf: "same_ctl s s' \<Longrightarrow> partitioned s \<Longrightarrow> partitioned s'"
  by (simp add: same_ctl_def partitioned_def)

lemma same_ctl_ordered: "same_ctl s s' \<Longrightarrow> ordered s \<Longrightarrow> ordered s'"
proof -
  assume a: "same_ctl s s'" and o: "ordered s"
  have c: "\<And>d blk l. cached (bufs s') d blk l = cached (bufs s) d blk l"
    by (rule cached_cong) (use a in \<open>simp add: same_ctl_def\<close>)
  show ?thesis using a o unfolding ordered_def c by (simp add: same_ctl_def)
qed

lemma same_ctl_holders: "same_ctl s s' \<Longrightarrow> holders s' b = holders s b"
  by (simp add: same_ctl_def holders_def)

lemma same_ctl_pins: "same_ctl s s' \<Longrightarrow> pins s' b = pins s b"
  by (simp add: pins_def same_ctl_holders) (simp add: same_ctl_def)

lemma same_ctl_counted: "same_ctl s s' \<Longrightarrow> counted n s \<Longrightarrow> counted n s'"
  unfolding counted_def by (simp only: same_ctl_holders same_ctl_pins) (simp add: same_ctl_def)

lemma same_ctl_bwrite: "same_ctl s (virtio_disk_rw s b True)"
  by (auto simp: same_ctl_def virtio_disk_rw_def Let_def)

lemma same_ctl_tick: "same_ctl s (tick s)"
  by (auto simp: same_ctl_def tick_def)


subsection \<open>The buckets stay a partition of the buffers\<close>

lemma upd_nth: "bs[i := x] ! k = (if k = i \<and> i < length bs then x else bs ! k)"
  by (cases "i < length bs") (auto simp: list_update_beyond)

lemma wf_cong:
  "partitioned s \<Longrightarrow> bucket s' = bucket s \<Longrightarrow> length (bufs s') = length (bufs s) \<Longrightarrow>
   (\<And>k. k < length (bufs s) \<Longrightarrow> hash (blockno (bufs s' ! k)) = hash (blockno (bufs s ! k))) \<Longrightarrow> partitioned s'"
  unfolding partitioned_def by auto

lemma ordered_cong:
  assumes "ordered s" "bucket s' = bucket s"
    and "\<And>k. dev (bufs s' ! k) = dev (bufs s ! k) \<and> blockno (bufs s' ! k) = blockno (bufs s ! k)"
    and "\<And>k. refcnt (bufs s' ! k) \<noteq> 0 \<or> valid (bufs s' ! k) \<Longrightarrow>
           refcnt (bufs s ! k) \<noteq> 0 \<or> valid (bufs s ! k)"
  shows "ordered s'"
  unfolding ordered_def
proof (intro allI impI ballI)
  fix j k
  assume j: "j < N" and k: "k \<in> set (bucket s' ! j)"
    and r: "refcnt (bufs s' ! k) \<noteq> 0 \<or> valid (bufs s' ! k)"
  have c: "\<And>d blk l. cached (bufs s') d blk l = cached (bufs s) d blk l"
    by (rule cached_cong) (simp add: assms(3))
  from k have k': "k \<in> set (bucket s ! j)" by (simp add: assms(2))
  from assms(1) j k' assms(4)[OF r]
  have "cached (bufs s) (dev (bufs s ! k)) (blockno (bufs s ! k)) (bucket s ! j) = Some k"
    by (simp add: ordered_def)
  then show "cached (bufs s') (dev (bufs s' ! k)) (blockno (bufs s' ! k)) (bucket s' ! j) = Some k"
    by (simp add: c assms(2,3))
qed

lemma wf_hit: "partitioned s \<Longrightarrow> partitioned (hit s i)"
  by (erule wf_cong) (simp_all add: hit_def upd_nth)

lemma wf_reclaim:
  assumes "partitioned s" "b \<in> set (bucket s ! hash blk)"
  shows "partitioned (reclaim s b d blk)"
proof -
  from assms have "b < length (bufs s)" "hash (blockno (bufs s ! b)) = hash blk"
    using hash_less[of blk] by (auto simp: partitioned_def)
  with assms(1) show ?thesis
    by (elim wf_cong) (simp_all add: reclaim_def upd_nth)
qed

lemma wf_migrate:
  assumes w: "partitioned s" and c: "c < length (bufs s)" and ne: "hash (blockno (bufs s ! c)) \<noteq> hash blk"
  shows "partitioned (migrate s c d blk)"
proof -
  let ?no2 = "hash (blockno (bufs s ! c))" and ?no = "hash blk"
  let ?s' = "migrate s c d blk"
  have len: "length (bucket s) = N" using w by (simp add: partitioned_def)
  have n2: "?no2 < N" and n: "?no < N" by (rule hash_less)+
  have bk2: "bucket ?s' ! ?no2 = remove1 c (bucket s ! ?no2)"
    using ne len n2 by (simp add: migrate_def Let_def)
  have bk: "bucket ?s' ! ?no = c # (bucket s ! ?no)"
    using ne len n by (simp add: migrate_def Let_def)
  have bko: "\<And>j. j \<noteq> ?no2 \<Longrightarrow> j \<noteq> ?no \<Longrightarrow> bucket ?s' ! j = bucket s ! j"
    by (simp add: migrate_def Let_def)
  have blk: "\<And>k. hash (blockno (bufs ?s' ! k)) =
      (if k = c then ?no else hash (blockno (bufs s ! k)))"
    using c by (simp add: migrate_def Let_def upd_nth)
  have l: "length (bufs ?s') = length (bufs s)" "length (bucket ?s') = N"
    using len by (simp_all add: migrate_def Let_def)
  let ?B = "\<lambda>j. {i. i < length (bufs s) \<and> hash (blockno (bufs s ! i)) = j}"
  let ?B' = "\<lambda>j. {i. i < length (bufs ?s') \<and> hash (blockno (bufs ?s' ! i)) = j}"
  have B': "?B' j = (if j = ?no then insert c (?B j) else ?B j - {c})" for j
    unfolding l blk using c ne by auto
  have old: "distinct (bucket s ! j) \<and> set (bucket s ! j) = ?B j" if "j < N" for j
    using w that by (simp add: partitioned_def)
  have cB: "c \<in> ?B ?no2" "c \<notin> ?B ?no" using c ne by simp_all
  have "distinct (bucket ?s' ! j) \<and> set (bucket ?s' ! j) = ?B' j" if j: "j < N" for j
  proof -
    consider "j = ?no2" | "j = ?no" | "j \<noteq> ?no2" "j \<noteq> ?no" by blast
    then show ?thesis
    proof cases
      case 1
      have "distinct (remove1 c (bucket s ! ?no2))" using old[OF n2] by simp
      moreover have "set (remove1 c (bucket s ! ?no2)) = ?B ?no2 - {c}"
        using old[OF n2] by (metis set_remove1_eq)
      ultimately show ?thesis unfolding 1 bk2 B' using ne by simp
    next
      case 2
      have "distinct (c # bucket s ! ?no)" using old[OF n] cB(2) by simp
      moreover have "set (c # bucket s ! ?no) = insert c (?B ?no)"
        using old[OF n] by simp
      ultimately show ?thesis unfolding 2 bk B' by simp
    next
      case 3
      have "?B j - {c} = ?B j" using 3(1) by auto
      then show ?thesis unfolding bko[OF 3] B' using 3(2) old[OF j] by simp
    qed
  qed
  with l show ?thesis by (simp add: partitioned_def)
qed


subsection \<open>Lookups keep finding the buffers in use\<close>

lemma wf_mem_iff:
  "partitioned s \<Longrightarrow> j < N \<Longrightarrow> k \<in> set (bucket s ! j) \<longleftrightarrow> k < length (bufs s) \<and> hash (blockno (bufs s ! k)) = j"
  by (simp add: partitioned_def)

lemma ordered_hit:
  assumes o: "ordered s" and w: "partitioned s"
    and c: "cached (bufs s) d blk (bucket s ! hash blk) = Some i"
  shows "ordered (hit s i)"
  unfolding ordered_def
proof (intro allI impI ballI)
  fix j k
  let ?s' = "hit s i"
  assume j: "j < N" and k: "k \<in> set (bucket ?s' ! j)" and r: "refcnt (bufs ?s' ! k) \<noteq> 0 \<or> valid (bufs ?s' ! k)"
  have id: "\<And>k. dev (bufs ?s' ! k) = dev (bufs s ! k) \<and> blockno (bufs ?s' ! k) = blockno (bufs s ! k)"
    by (simp add: hit_def upd_nth)
  have cc: "\<And>d blk l. cached (bufs ?s') d blk l = cached (bufs s) d blk l"
    by (rule cached_cong) (simp add: id)
  have bk: "bucket ?s' = bucket s" by (simp add: hit_def)
  from k have k': "k \<in> set (bucket s ! j)" by (simp add: bk)
  have "cached (bufs s) (dev (bufs s ! k)) (blockno (bufs s ! k)) (bucket s ! j) = Some k"
  proof (cases "k = i")
    case True
    from cached_Some_mem[OF c] have "dev (bufs s ! i) = d" "blockno (bufs s ! i) = blk" by auto
    moreover from k' True w j have "hash (blockno (bufs s ! i)) = j" by (simp add: wf_mem_iff)
    ultimately show ?thesis using c True by auto
  next
    case False
    with r have "refcnt (bufs s ! k) \<noteq> 0 \<or> valid (bufs s ! k)" by (simp add: hit_def upd_nth)
    with o j k' show ?thesis by (simp add: ordered_def)
  qed
  then show "cached (bufs ?s') (dev (bufs ?s' ! k)) (blockno (bufs ?s' ! k)) (bucket ?s' ! j) = Some k"
    by (simp add: cc bk id)
qed

lemma ordered_reclaim:
  assumes o: "ordered s" and w: "partitioned s"
    and c: "cached (bufs s) d blk (bucket s ! hash blk) = None"
    and b: "b \<in> set (bucket s ! hash blk)"
  shows "ordered (reclaim s b d blk)"
  unfolding ordered_def
proof (intro allI impI ballI)
  fix j k
  let ?s' = "reclaim s b d blk"
  let ?x = "(bufs s ! b)\<lparr>dev := d, blockno := blk, valid := False, refcnt := 1\<rparr>"
  assume j: "j < N" and k: "k \<in> set (bucket ?s' ! j)" and r: "refcnt (bufs ?s' ! k) \<noteq> 0 \<or> valid (bufs ?s' ! k)"
  have bs: "bufs ?s' = (bufs s)[b := ?x]" and bk: "bucket ?s' = bucket s"
    by (simp_all add: reclaim_def)
  from b w have bl: "b < length (bufs s)" and bh: "hash (blockno (bufs s ! b)) = hash blk"
    using hash_less[of blk] by (simp_all add: wf_mem_iff)
  from k have k': "k \<in> set (bucket s ! j)" by (simp add: bk)
  show "cached (bufs ?s') (dev (bufs ?s' ! k)) (blockno (bufs ?s' ! k)) (bucket ?s' ! j) = Some k"
  proof (cases "k = b")
    case True
    with k' w j bh have "j = hash blk" by (simp add: wf_mem_iff)
    with True bl cached_upd_new[OF c b bl, of ?x] show ?thesis
      by (simp add: bs bk)
  next
    case False
    with r have "refcnt (bufs s ! k) \<noteq> 0 \<or> valid (bufs s ! k)" by (simp add: bs upd_nth)
    with o j k' have ck: "cached (bufs s) (dev (bufs s ! k)) (blockno (bufs s ! k)) (bucket s ! j) = Some k"
      by (simp add: ordered_def)
    have same: "bufs ?s' ! k = bufs s ! k" using False by (simp add: bs)
    show ?thesis
    proof (cases "j = hash blk")
      case True
      with c k' have "\<not> (dev (bufs s ! k) = d \<and> blockno (bufs s ! k) = blk)"
        by (simp add: cached_None_iff)
      then have "\<not> (dev ?x = dev (bufs s ! k) \<and> blockno ?x = blockno (bufs s ! k))" by auto
      from cached_upd_other[OF ck False this] show ?thesis by (simp add: same bk) (simp add: bs)
    next
      case False
      with w j bl bh have "b \<notin> set (bucket s ! j)" by (simp add: wf_mem_iff)
      from cached_upd_notin[OF this] ck show ?thesis by (simp add: same bk) (simp add: bs)
    qed
  qed
qed

lemma ordered_migrate:
  assumes o: "ordered s" and w: "partitioned s"
    and ch: "cached (bufs s) d blk (bucket s ! hash blk) = None"
    and c: "c < length (bufs s)" and ne: "hash (blockno (bufs s ! c)) \<noteq> hash blk"
  shows "ordered (migrate s c d blk)"
  unfolding ordered_def
proof (intro allI impI ballI)
  fix j k
  let ?no2 = "hash (blockno (bufs s ! c))" and ?no = "hash blk"
  let ?s' = "migrate s c d blk"
  let ?x = "(bufs s ! c)\<lparr>dev := d, blockno := blk, valid := False, refcnt := 1\<rparr>"
  assume j: "j < N" and k: "k \<in> set (bucket ?s' ! j)" and r: "refcnt (bufs ?s' ! k) \<noteq> 0 \<or> valid (bufs ?s' ! k)"
  have len: "length (bucket s) = N" using w by (simp add: partitioned_def)
  have n2: "?no2 < N" and n: "?no < N" by (rule hash_less)+
  have bk2: "bucket ?s' ! ?no2 = remove1 c (bucket s ! ?no2)"
    using ne len n2 by (simp add: migrate_def Let_def)
  have bk: "bucket ?s' ! ?no = c # (bucket s ! ?no)"
    using ne len n by (simp add: migrate_def Let_def)
  have bko: "\<And>j. j \<noteq> ?no2 \<Longrightarrow> j \<noteq> ?no \<Longrightarrow> bucket ?s' ! j = bucket s ! j"
    by (simp add: migrate_def Let_def)
  have bs: "bufs ?s' = (bufs s)[c := ?x]" by (simp add: migrate_def Let_def)
  have cno: "c \<notin> set (bucket s ! ?no)" using w n ne by (simp add: wf_mem_iff)
  show "cached (bufs ?s') (dev (bufs ?s' ! k)) (blockno (bufs ?s' ! k)) (bucket ?s' ! j) = Some k"
  proof (cases "k = c")
    case True
    from wf_migrate[OF w c ne] j k True have "hash (blockno (bufs ?s' ! c)) = j"
      by (simp add: wf_mem_iff)
    then have "j = ?no" using c by (simp add: bs)
    with True c show ?thesis by (simp add: bk) (simp add: bs cached_def)
  next
    case False
    then have same: "bufs ?s' ! k = bufs s ! k" by (simp add: bs)
    from wf_migrate[OF w c ne] j k have kj: "k < length (bufs s)" "hash (blockno (bufs s ! k)) = j"
      using same by (simp_all add: wf_mem_iff bs)
    then have k': "k \<in> set (bucket s ! j)" using w j by (simp add: wf_mem_iff)
    from r same have "refcnt (bufs s ! k) \<noteq> 0 \<or> valid (bufs s ! k)" by simp
    with o j k' have ck: "cached (bufs s) (dev (bufs s ! k)) (blockno (bufs s ! k)) (bucket s ! j) = Some k"
      by (simp add: ordered_def)
    consider "j = ?no2" | "j = ?no" | "j \<noteq> ?no2" "j \<noteq> ?no" by blast
    then show ?thesis
    proof cases
      case 1
      have "c \<notin> set (remove1 c (bucket s ! ?no2))"
        using w n2 by (simp add: partitioned_def)
      from cached_upd_notin[OF this] cached_remove1[OF ck[unfolded 1] False]
      show ?thesis unfolding 1 bk2 same by (simp add: bs)
    next
      case 2
      from ch k'[unfolded 2] have "\<not> (dev (bufs s ! k) = d \<and> blockno (bufs s ! k) = blk)"
        by (simp add: cached_None_iff)
      moreover from cached_upd_notin[OF cno] ck[unfolded 2]
      have "cached (bufs ?s') (dev (bufs s ! k)) (blockno (bufs s ! k)) (bucket s ! ?no) = Some k"
        by (simp add: bs)
      ultimately show ?thesis unfolding 2 bk same using c
        by (auto simp: cached_def bs)
    next
      case 3
      with w j c have "c \<notin> set (bucket s ! j)" by (simp add: wf_mem_iff)
      from cached_upd_notin[OF this] ck show ?thesis
        unfolding bko[OF 3] same by (simp add: bs)
    qed
  qed
qed


subsection \<open>Reference counts\<close>

lemma sleepers_finite: "counted n s \<Longrightarrow> finite {q. chan s q = Some b}"
  by (rule finite_subset[of _ "{..<n}"]) (auto simp: counted_def)

lemma sleepers_bound:
  assumes "counted n s" "p < n" "chan s p = None"
  shows "card {q. chan s q = Some b} < n"
proof -
  have "{q. chan s q = Some b} \<subseteq> {..<n} - {p}"
    using assms by (auto simp: counted_def)
  then have "card {q. chan s q = Some b} \<le> card ({..<n} - {p})"
    by (intro card_mono) auto
  also have "\<dots> < n" using assms(2) by simp
  finally show ?thesis .
qed

lemma countedD:
  "counted n s \<Longrightarrow> b < length (bufs s) \<Longrightarrow>
   holders s b \<le> unat (refcnt (bufs s ! b)) \<and> pins s b + n + 1 < 2 ^ 32"
  by (simp add: counted_def)

lemma counted_locked_refcnt:
  assumes "counted n s" "b < length (bufs s)" "locked (lock (bufs s ! b))"
  shows "refcnt (bufs s ! b) \<noteq> 0"
proof
  assume "refcnt (bufs s ! b) = 0"
  with countedD[OF assms(1,2)] assms(3) show False by (simp add: holders_def)
qed

lemma counted_free:
  assumes "counted n s" "b < length (bufs s)" "refcnt (bufs s ! b) = 0"
  shows "\<not> locked (lock (bufs s ! b)) \<and> (\<forall>q. chan s q \<noteq> Some b)"
proof -
  from countedD[OF assms(1,2)] assms(3)
  have e: "(if locked (lock (bufs s ! b)) then 1 else 0) + card {q. chan s q = Some b} = 0"
    by (simp add: holders_def)
  then have "\<not> locked (lock (bufs s ! b))" by (auto split: if_splits)
  moreover from e have "card {q. chan s q = Some b} = 0" by simp
  with sleepers_finite[OF assms(1)] have "{q. chan s q = Some b} = {}" by simp
  ultimately show ?thesis by auto
qed

text \<open>
  A step keeps the counts right when, for every buffer, the holders stay within
  \<open>refcnt\<close> and the pins do not grow.
\<close>

lemma counted_step:
  assumes "counted n s"
    and "\<And>p b. chan s' p = Some b \<Longrightarrow> p < n \<and> b < length (bufs s')"
    and "length (bufs s') = length (bufs s)"
    and "\<And>b. b < length (bufs s) \<Longrightarrow>
           holders s' b \<le> unat (refcnt (bufs s' ! b)) \<and> pins s' b \<le> pins s b"
  shows "counted n s'"
  unfolding counted_def
proof (intro conjI allI impI)
  fix p b assume "chan s' p = Some b"
  with assms(2) show "p < n" "b < length (bufs s')" by blast+
next
  fix b assume "b < length (bufs s')"
  then have b: "b < length (bufs s)" by (simp add: assms(3))
  from assms(4)[OF b] show "holders s' b \<le> unat (refcnt (bufs s' ! b))" by simp
  from assms(4)[OF b] countedD[OF assms(1) b] show "pins s' b + n + 1 < 2 ^ 32" by simp
qed

text \<open>
  A process that was awake takes the sleep lock of a buffer whose \<open>refcnt\<close> has just been
  incremented, or falls asleep on it.
\<close>

lemma counted_acquiresleep:
  assumes cn: "counted n s" and p: "p < n" "chan s p = None"
    and b: "b < length (bufs s)"
    and s1: "chan s1 = chan s" "length (bufs s1) = length (bufs s)"
      "\<And>k. k \<noteq> b \<Longrightarrow> refcnt (bufs s1 ! k) = refcnt (bufs s ! k) \<and> lock (bufs s1 ! k) = lock (bufs s ! k)"
      "lock (bufs s1 ! b) = lock (bufs s ! b)"
      "unat (refcnt (bufs s1 ! b)) = unat (refcnt (bufs s ! b)) + 1"
    and r: "state_of (acquiresleep s1 p b) = Some (s', x)"
  shows "counted n s'"
proof (cases "locked (lock (bufs s ! b))")
  case True
  with r s1 have s': "s' = s1\<lparr>chan := (chan s)(p \<mapsto> b)\<rparr>"
    by (auto simp: acquiresleep_def)
  have set_b: "{q. chan s' q = Some b} = insert p {q. chan s q = Some b}"
    by (auto simp: s')
  have set_o: "\<And>k. k \<noteq> b \<Longrightarrow> {q. chan s' q = Some k} = {q. chan s q = Some k}"
    using p by (auto simp: s')
  have "p \<notin> {q. chan s q = Some b}" using p by simp
  with sleepers_finite[OF cn] have cb: "card {q. chan s' q = Some b} = card {q. chan s q = Some b} + 1"
    unfolding set_b by simp
  have hb: "holders s' b = holders s b + 1"
    using cb s1(4) by (simp add: holders_def s')
  have ho: "\<And>k. k \<noteq> b \<Longrightarrow> holders s' k = holders s k"
    using set_o s1(3) by (simp add: holders_def s')
  show ?thesis
  proof (rule counted_step[OF cn])
    fix q k assume "chan s' q = Some k"
    then show "q < n \<and> k < length (bufs s')"
      using cn p b s1 by (auto simp: s' counted_def split: if_splits)
  next
    show "length (bufs s') = length (bufs s)" by (simp add: s' s1)
  next
    fix k assume k: "k < length (bufs s)"
    show "holders s' k \<le> unat (refcnt (bufs s' ! k)) \<and> pins s' k \<le> pins s k"
    proof (cases "k = b")
      case True
      with countedD[OF cn b] hb s1(5) show ?thesis by (simp add: pins_def) (simp add: s')
    next
      case False
      with countedD[OF cn k] ho s1(3) show ?thesis by (simp add: pins_def) (simp add: s')
    qed
  qed
next
  case False
  with r s1 have s': "s' = s1\<lparr>bufs := (bufs s1)[b := (bufs s1 ! b)\<lparr>lock := \<lparr>locked = True, pid = p\<rparr>\<rparr>]\<rparr>"
    by (auto simp: acquiresleep_def)
  have hb: "holders s' b = holders s b + 1"
    using False b s1 by (simp add: holders_def s')
  have ho: "\<And>k. k \<noteq> b \<Longrightarrow> holders s' k = holders s k"
    using s1 by (simp add: holders_def s')
  show ?thesis
  proof (rule counted_step[OF cn])
    fix q k assume "chan s' q = Some k"
    then show "q < n \<and> k < length (bufs s')"
      using cn s1 by (auto simp: s' counted_def)
  next
    show "length (bufs s') = length (bufs s)" by (simp add: s' s1)
  next
    fix k assume k: "k < length (bufs s)"
    show "holders s' k \<le> unat (refcnt (bufs s' ! k)) \<and> pins s' k \<le> pins s k"
    proof (cases "k = b")
      case True
      with countedD[OF cn b] hb s1(5) b s1(2) show ?thesis
        by (simp add: pins_def) (simp add: s')
    next
      case False
      with countedD[OF cn k] ho s1(3) show ?thesis by (simp add: pins_def) (simp add: s')
    qed
  qed
qed

lemma holders_bound:
  assumes "counted n s" "p < n" "chan s p = None"
  shows "holders s b \<le> n"
  using sleepers_bound[OF assms, of b] by (simp add: holders_def)

lemma refcnt_room:
  assumes "counted n s" "p < n" "chan s p = None" "b < length (bufs s)"
  shows "unat (refcnt (bufs s ! b)) + 1 < 2 ^ 32"
proof -
  from countedD[OF assms(1,4)]
  have "holders s b \<le> unat (refcnt (bufs s ! b))"
    "unat (refcnt (bufs s ! b)) - holders s b + n + 1 < 2 ^ 32"
    unfolding pins_def by blast+
  with holders_bound[OF assms(1-3), of b] show ?thesis by arith
qed

lemma counted_hit:
  assumes cn: "counted n s" and p: "p < n" "chan s p = None"
    and b: "i < length (bufs s)"
    and r: "state_of (acquiresleep (hit s i) p i) = Some (s', x)"
  shows "counted n s'"
proof (rule counted_acquiresleep[OF cn p b _ _ _ _ _ r])
  from refcnt_room[OF cn p b]
  have "unat (refcnt (bufs s ! i) + 1) = unat (refcnt (bufs s ! i)) + 1"
    by (simp add: unat_word_ariths)
  then show "unat (refcnt (bufs (hit s i) ! i)) = unat (refcnt (bufs s ! i)) + 1"
    using b by (simp add: hit_def)
qed (use b in \<open>simp_all add: hit_def\<close>)

lemma counted_reclaim:
  assumes cn: "counted n s" and p: "p < n" "chan s p = None"
    and b: "b < length (bufs s)" and f: "refcnt (bufs s ! b) = 0"
    and r: "state_of (acquiresleep (reclaim s b d blk) p b) = Some (s', x)"
  shows "counted n s'"
  by (rule counted_acquiresleep[OF cn p b _ _ _ _ _ r]) (use b f in \<open>simp_all add: reclaim_def\<close>)

lemma counted_migrate:
  assumes cn: "counted n s" and p: "p < n" "chan s p = None"
    and b: "b < length (bufs s)" and f: "refcnt (bufs s ! b) = 0"
    and r: "state_of (acquiresleep (migrate s b d blk) p b) = Some (s', x)"
  shows "counted n s'"
  by (rule counted_acquiresleep[OF cn p b _ _ _ _ _ r]) (use b f in \<open>simp_all add: migrate_def Let_def\<close>)


subsection \<open>The invariant is preserved\<close>

lemma bget_cases [consumes 1, case_names hit local global panic]:
  assumes w: "partitioned s"
  obtains
    (hit) i where "cached (bufs s) d blk (bucket s ! hash blk) = Some i"
      "bget s p d blk = Some (acquiresleep (hit s i) p i)"
  | (local) b where "cached (bufs s) d blk (bucket s ! hash blk) = None"
      "b \<in> set (bucket s ! hash blk)" "refcnt (bufs s ! b) = 0"
      "snd (scan_global (bufs s) (bucket s ! hash blk) (- 1) None) = Some b"
      "bget s p d blk = Some (acquiresleep (reclaim s b d blk) p b)"
  | (global) c where "cached (bufs s) d blk (bucket s ! hash blk) = None"
      "c < length (bufs s)" "refcnt (bufs s ! c) = 0"
      "hash (blockno (bufs s ! c)) \<noteq> hash blk"
      "snd (scan_global (bufs s) (bucket s ! hash blk) (- 1) None) = None"
      "snd (scan_global (bufs s) [0..<length (bufs s)] (- 1) None) = Some c"
      "bget s p d blk = Some (acquiresleep (migrate s c d blk) p c)"
  | (panic) "cached (bufs s) d blk (bucket s ! hash blk) = None"
      "snd (scan_global (bufs s) [0..<length (bufs s)] (- 1) None) = None"
      "bget s p d blk = Some (Panic OutOfBuffers)"
proof (cases "cached (bufs s) d blk (bucket s ! hash blk)")
  case (Some i)
  then show ?thesis using hit bget_hit by blast
next
  case None
  show ?thesis
  proof (cases "snd (scan_global (bufs s) (bucket s ! hash blk) (- 1) None)")
    case (Some b)
    from scan_global_Some[OF Some] bget_local[OF None Some] None Some show ?thesis
      using local by blast
  next
    case loc: None
    note esc = bget_escalate[OF None loc]
    show ?thesis
    proof (cases "snd (scan_global (bufs s) [0..<length (bufs s)] (- 1) None)")
      case None
      from globalfind_panic[OF None] esc \<open>cached (bufs s) d blk (bucket s ! hash blk) = None\<close> None
      show ?thesis using panic by simp
    next
      case (Some c)
      from escalate_other_bucket[OF w loc Some hash_less]
      have ne: "hash (blockno (bufs s ! c)) \<noteq> hash blk" .
      from globalfind_migrate[OF w Some ne refl] esc
      have "bget s p d blk = Some (acquiresleep (migrate s c d blk) p c)" by simp
      with scan_global_Some[OF Some] ne loc Some \<open>cached (bufs s) d blk (bucket s ! hash blk) = None\<close>
      show ?thesis by (intro global[of c]) auto
    qed
  qed
qed

lemma acquiresleep_same:
  assumes "state_of (acquiresleep s1 p b) = Some (s', x)"
  shows "x = b \<and> bucket s' = bucket s1 \<and> length (bufs s') = length (bufs s1) \<and>
     ticks s' = ticks s1 \<and> disk s' = disk s1 \<and> io_log s' = io_log s1 \<and>
     (\<forall>k. dev (bufs s' ! k) = dev (bufs s1 ! k) \<and> blockno (bufs s' ! k) = blockno (bufs s1 ! k) \<and>
          refcnt (bufs s' ! k) = refcnt (bufs s1 ! k) \<and> valid (bufs s' ! k) = valid (bufs s1 ! k) \<and>
          time (bufs s' ! k) = time (bufs s1 ! k) \<and> data (bufs s' ! k) = data (bufs s1 ! k) \<and>
          (locked (lock (bufs s1 ! k)) \<longrightarrow> lock (bufs s' ! k) = lock (bufs s1 ! k)))"
  using assms by (auto simp: acquiresleep_def upd_nth split: if_splits)

lemma acquiresleep_wf:
  "state_of (acquiresleep s1 p b) = Some (s', x) \<Longrightarrow> partitioned s1 \<Longrightarrow> partitioned s'"
  by (drule acquiresleep_same, erule wf_cong) simp_all

lemma acquiresleep_ordered:
  "state_of (acquiresleep s1 p b) = Some (s', x) \<Longrightarrow> ordered s1 \<Longrightarrow> ordered s'"
  by (drule acquiresleep_same, erule ordered_cong) simp_all

lemma bget_inv:
  assumes i: "cache_inv n s" and n: "n + 1 < 2 ^ 32" and p: "p < n" "chan s p = None"
    and r: "bget s p d blk = Some r" "state_of r = Some (s', x)"
  shows "cache_inv n s'"
proof -
  from i have w: "partitioned s" and o: "ordered s" and c: "counted n s" by (simp_all add: cache_inv_def)
  from w show ?thesis
  proof (cases rule: bget_cases[where d=d and blk=blk and p=p])
    case (hit i)
    with r have a: "state_of (acquiresleep (hit s i) p i) = Some (s', x)" by simp
    from cached_Some_mem[OF hit(1)] w have il: "i < length (bufs s)"
      using hash_less[of blk] by (simp add: wf_mem_iff)
    from acquiresleep_wf[OF a wf_hit[OF w]] acquiresleep_ordered[OF a ordered_hit[OF o w hit(1)]]
      counted_hit[OF c p il a]
    show ?thesis by (simp add: cache_inv_def)
  next
    case (local b)
    with r have a: "state_of (acquiresleep (reclaim s b d blk) p b) = Some (s', x)" by simp
    from local(2) w have bl: "b < length (bufs s)"
      using hash_less[of blk] by (simp add: wf_mem_iff)
    from acquiresleep_wf[OF a wf_reclaim[OF w local(2)]]
      acquiresleep_ordered[OF a ordered_reclaim[OF o w local(1,2)]]
      counted_reclaim[OF c p bl local(3) a]
    show ?thesis by (simp add: cache_inv_def)
  next
    case (global b)
    with r have a: "state_of (acquiresleep (migrate s b d blk) p b) = Some (s', x)" by simp
    from acquiresleep_wf[OF a wf_migrate[OF w global(2,4)]]
      acquiresleep_ordered[OF a ordered_migrate[OF o w global(1,2,4)]]
      counted_migrate[OF c p global(2,3) a]
    show ?thesis by (simp add: cache_inv_def)
  next
    case panic
    with r show ?thesis by auto
  qed
qed

lemma acquiresleep_Done:
  "acquiresleep s1 p b = Done (s', x) \<Longrightarrow> b < length (bufs s1) \<Longrightarrow>
   x = b \<and> lock (bufs s' ! b) = \<lparr>locked = True, pid = p\<rparr> \<and> chan s' = chan s1"
  by (auto simp: acquiresleep_def split: if_splits)

lemma bget_Done_locked:
  assumes w: "partitioned s" and r: "bget s p d blk = Some (Done (s', x))"
  shows "x < length (bufs s') \<and> locked (lock (bufs s' ! x)) \<and> pid (lock (bufs s' ! x)) = p \<and>
     chan s' = chan s \<and> dev (bufs s' ! x) = d \<and> blockno (bufs s' ! x) = blk"
  using w
proof (cases rule: bget_cases[where d=d and blk=blk and p=p])
  case (hit i)
  with r have a: "acquiresleep (hit s i) p i = Done (s', x)" by simp
  from cached_Some_mem[OF hit(1)] w have il: "i < length (bufs s)" "dev (bufs s ! i) = d"
    "blockno (bufs s ! i) = blk"
    using hash_less[of blk] by (simp_all add: wf_mem_iff)
  from a have a': "state_of (acquiresleep (hit s i) p i) = Some (s', x)" by simp
  from acquiresleep_Done[OF a] acquiresleep_same[OF a'] il show ?thesis
    by (simp add: hit_def)
next
  case (local b)
  with r have a: "acquiresleep (reclaim s b d blk) p b = Done (s', x)" by simp
  from local(2) w have bl: "b < length (bufs s)"
    using hash_less[of blk] by (simp add: wf_mem_iff)
  from a have a': "state_of (acquiresleep (reclaim s b d blk) p b) = Some (s', x)" by simp
  from acquiresleep_Done[OF a] acquiresleep_same[OF a'] bl show ?thesis
    by (simp add: reclaim_def)
next
  case (global b)
  with r have a: "acquiresleep (migrate s b d blk) p b = Done (s', x)" by simp
  from a have a': "state_of (acquiresleep (migrate s b d blk) p b) = Some (s', x)" by simp
  from acquiresleep_Done[OF a] acquiresleep_same[OF a'] global(2) show ?thesis
    by (simp add: migrate_def Let_def)
next
  case panic
  with r show ?thesis by simp
qed

lemma bread_tail_same:
  "length (bufs (bread_tail s b)) = length (bufs s) \<and> bucket (bread_tail s b) = bucket s \<and>
   chan (bread_tail s b) = chan s \<and> ticks (bread_tail s b) = ticks s \<and>
   (\<forall>k. dev (bufs (bread_tail s b) ! k) = dev (bufs s ! k) \<and>
        blockno (bufs (bread_tail s b) ! k) = blockno (bufs s ! k) \<and>
        refcnt (bufs (bread_tail s b) ! k) = refcnt (bufs s ! k) \<and>
        lock (bufs (bread_tail s b) ! k) = lock (bufs s ! k) \<and>
        time (bufs (bread_tail s b) ! k) = time (bufs s ! k) \<and>
        valid (bufs (bread_tail s b) ! k) = (k = b \<and> b < length (bufs s) \<or> valid (bufs s ! k)))"
  by (auto simp: bread_tail_def virtio_disk_rw_def Let_def upd_nth)

lemma bread_tail_inv:
  assumes i: "cache_inv n s" and nz: "refcnt (bufs s ! b) \<noteq> 0"
  shows "cache_inv n (bread_tail s b)"
proof -
  from i have w: "partitioned s" and o: "ordered s" and c: "counted n s" by (simp_all add: cache_inv_def)
  note f = bread_tail_same[of s b]
  have "partitioned (bread_tail s b)" by (rule wf_cong[OF w]) (simp_all add: f)
  moreover have "ordered (bread_tail s b)"
    by (rule ordered_cong[OF o]) (use nz in \<open>auto simp: f\<close>)
  moreover have "counted n (bread_tail s b)"
    by (rule counted_step[OF c]) (use c in \<open>auto simp: f counted_def holders_def pins_def\<close>)
  ultimately show ?thesis by (simp add: cache_inv_def)
qed

lemma inv_same_ctl: "same_ctl s s' \<Longrightarrow> cache_inv n s \<Longrightarrow> cache_inv n s'"
  by (simp add: cache_inv_def same_ctl_wf same_ctl_ordered same_ctl_counted)

lemma brelse_inv:
  assumes i: "cache_inv n s" and b: "b < length (bufs s)" and r: "brelse s p b = Done s'"
  shows "cache_inv n s'"
proof -
  from i have w: "partitioned s" and o: "ordered s" and c: "counted n s" by (simp_all add: cache_inv_def)
  from r have h: "locked (lock (bufs s ! b))"
    by (auto simp: brelse_def holdingsleep_def split: if_splits)
  let ?x = "(bufs s ! b)\<lparr>lock := \<lparr>locked = False, pid = 0\<rparr>, refcnt := refcnt (bufs s ! b) - 1\<rparr>"
  from r h have s': "s' = s\<lparr>bufs := (bufs s)[b := (if refcnt (bufs s ! b) - 1 = 0 then ?x\<lparr>time := ticks s\<rparr> else ?x)]\<rparr>"
    by (auto simp: brelse_def Let_def split: if_splits)
  from counted_locked_refcnt[OF c b h] have nz: "refcnt (bufs s ! b) \<noteq> 0" .
  then have u: "unat (refcnt (bufs s ! b) - 1) = unat (refcnt (bufs s ! b)) - 1"
    by (simp add: unat_minus_one)
  have w': "partitioned s'" by (rule wf_cong[OF w]) (simp_all add: s' upd_nth)
  have o': "ordered s'"
  proof (rule ordered_cong[OF o])
    fix k assume "refcnt (bufs s' ! k) \<noteq> 0 \<or> valid (bufs s' ! k)"
    then show "refcnt (bufs s ! k) \<noteq> 0 \<or> valid (bufs s ! k)"
      using nz by (cases "k = b") (auto simp: s' upd_nth split: if_splits)
  qed (simp_all add: s' upd_nth)
  have c': "counted n s'"
  proof (rule counted_step[OF c])
    fix q k assume "chan s' q = Some k"
    then show "q < n \<and> k < length (bufs s')" using c by (auto simp: s' counted_def)
  next
    show "length (bufs s') = length (bufs s)" by (simp add: s')
  next
    fix k assume k: "k < length (bufs s)"
    note e = countedD[OF c k]
    show "holders s' k \<le> unat (refcnt (bufs s' ! k)) \<and> pins s' k \<le> pins s k"
    proof (cases "k = b")
      case True
      have hs: "holders s' b + 1 = holders s b" using h b by (simp add: holders_def s')
      have rs: "unat (refcnt (bufs s' ! b)) + 1 = unat (refcnt (bufs s ! b))"
        using u nz b by (simp add: s' unat_gt_0 Suc_leI le_add_diff_inverse2 word_neq_0_conv)
      from e True have "holders s b \<le> unat (refcnt (bufs s ! b))" by simp
      with hs rs have "holders s' b \<le> unat (refcnt (bufs s' ! b)) \<and>
          unat (refcnt (bufs s' ! b)) - holders s' b \<le> unat (refcnt (bufs s ! b)) - holders s b"
        by arith
      with True show ?thesis by (simp add: pins_def)
    next
      case False
      then have "holders s' k = holders s k" "refcnt (bufs s' ! k) = refcnt (bufs s ! k)"
        by (simp_all add: holders_def s')
      with e show ?thesis by (simp add: pins_def)
    qed
  qed
  from w' o' c' show ?thesis by (simp add: cache_inv_def)
qed

lemma wake_inv:
  assumes i: "cache_inv n s"
  shows "cache_inv n (wake s p)"
proof (cases "chan s p")
  case None
  with i show ?thesis by (simp add: wake_def)
next
  case (Some b)
  from i have w: "partitioned s" and o: "ordered s" and c: "counted n s" by (simp_all add: cache_inv_def)
  show ?thesis
  proof (cases "locked (lock (bufs s ! b))")
    case True
    with Some i show ?thesis by (simp add: wake_def)
  next
    case False
    let ?s1 = "s\<lparr>bufs := (bufs s)[b := (bufs s ! b)\<lparr>lock := \<lparr>locked = True, pid = p\<rparr>\<rparr>],
                    chan := (chan s)(p := None)\<rparr>"
    from Some c have b: "b < length (bufs s)" by (auto simp: counted_def)
    have w1: "partitioned ?s1" by (rule wf_cong[OF w]) (simp_all add: upd_nth)
    have o1: "ordered ?s1" by (rule ordered_cong[OF o]) (auto simp: upd_nth split: if_splits)
    have c1: "counted n ?s1"
    proof (rule counted_step[OF c])
      fix q k assume "chan ?s1 q = Some k"
      then show "q < n \<and> k < length (bufs ?s1)"
        using c by (auto simp: counted_def split: if_splits)
    next
      show "length (bufs ?s1) = length (bufs s)" by simp
    next
      fix k assume k: "k < length (bufs s)"
      note e = countedD[OF c k]
      show "holders ?s1 k \<le> unat (refcnt (bufs ?s1 ! k)) \<and> pins ?s1 k \<le> pins s k"
      proof (cases "k = b")
        case True
        have "{q. chan ?s1 q = Some b} = {q. chan s q = Some b} - {p}" by auto
        moreover have "p \<in> {q. chan s q = Some b}" using Some by simp
        ultimately have "card {q. chan ?s1 q = Some b} + 1 = card {q. chan s q = Some b}"
          using sleepers_finite[OF c, of b] card_Suc_Diff1[of "{q. chan s q = Some b}" p] by simp
        with False b have "holders ?s1 b = holders s b" by (simp add: holders_def)
        moreover have "refcnt (bufs ?s1 ! b) = refcnt (bufs s ! b)" using b by simp
        ultimately show ?thesis using e True by (simp add: pins_def)
      next
        case False
        have "{q. chan ?s1 q = Some k} = {q. chan s q = Some k}" using Some False by auto
        with False have "holders ?s1 k = holders s k" by (simp add: holders_def)
        moreover have "refcnt (bufs ?s1 ! k) = refcnt (bufs s ! k)" using False by simp
        ultimately show ?thesis using e by (simp add: pins_def)
      qed
    qed
    from w1 o1 c1 have i1: "cache_inv n ?s1" by (simp add: cache_inv_def)
    have "locked (lock (bufs ?s1 ! b))" using b by simp
    from counted_locked_refcnt[OF c1 _ this] b have "refcnt (bufs ?s1 ! b) \<noteq> 0" by simp
    from bread_tail_inv[OF i1 this] Some False show ?thesis
      by (simp add: wake_def)
  qed
qed


subsection \<open>The invariant holds after binit\<close>

lemma binit_loop_keeps:
  "length (bufs (binit_loop l j s)) = length (bufs s) \<and>
   length (bucket (binit_loop l j s)) = length (bucket s) \<and>
   chan (binit_loop l j s) = chan s \<and>
   (\<forall>k. refcnt (bufs (binit_loop l j s) ! k) = refcnt (bufs s ! k) \<and>
        lock (bufs (binit_loop l j s) ! k) = lock (bufs s ! k) \<and>
        dev (bufs (binit_loop l j s) ! k) = dev (bufs s ! k) \<and>
        time (bufs (binit_loop l j s) ! k) = time (bufs s ! k) \<and>
        valid (bufs (binit_loop l j s) ! k) = valid (bufs s ! k))"
  by (induction l arbitrary: j s) (simp_all add: upd_nth)

lemma hash_of_nat: "hash (of_nat (i mod N)) = i mod N"
proof -
  have "i mod N < 2 ^ 32" by (simp add: N_def) 
  then show ?thesis
    by (simp add: hash_def unat_of_nat)
qed

lemma binit_loop_filled:
  "m \<le> n \<Longrightarrow> n \<le> length (bufs s) \<Longrightarrow> length (bucket s) = N \<Longrightarrow> filled m s \<Longrightarrow>
   filled n (binit_loop [m..<n] (m mod N) s)"
proof (induction "n - m" arbitrary: m s)
  case 0
  then show ?case by simp
next
  case (Suc x)
  then have mn: "m < n" by simp
  let ?j = "m mod N"
  let ?s1 = "s\<lparr>bufs := (bufs s)[m := (bufs s ! m)\<lparr>blockno := of_nat ?j\<rparr>],
          bucket := (bucket s)[?j := m # (bucket s ! ?j)]\<rparr>"
  have jN: "?j < N" by (simp add: N_def)
  have f1: "filled (Suc m) ?s1"
    unfolding filled_def
  proof (intro conjI allI impI)
    fix j assume j: "j < N"
    from Suc.prems(4) j have d: "distinct (bucket s ! j)" and st: "set (bucket s ! j) = {i. i < m \<and> i mod N = j}"
      by (simp_all add: filled_def)
    show "distinct (bucket ?s1 ! j)"
      using d st j Suc.prems(3) by (cases "j = ?j") auto
    show "set (bucket ?s1 ! j) = {i. i < Suc m \<and> i mod N = j}"
      using st j Suc.prems(3) by (cases "j = ?j") (auto simp: less_Suc_eq)
  next
    fix i assume "i < Suc m"
    then show "blockno (bufs ?s1 ! i) = of_nat (i mod N)"
      using Suc.prems(4) mn Suc.prems(2) by (auto simp: filled_def upd_nth less_Suc_eq)
  qed
  have "x = n - Suc m" using Suc(2) by simp
  from Suc(1)[OF this, of ?s1] mn Suc.prems f1
  have "filled n (binit_loop [Suc m..<n] (Suc m mod N) ?s1)" by simp
  moreover have "(m mod N + 1) mod N = Suc m mod N" by (simp add: mod_Suc_eq)
  ultimately show ?case using mn by (simp add: upt_conv_Cons)
qed

lemma binit_boot_facts:
  "length (bufs (binit (boot n))) = n \<and> length (bucket (binit (boot n))) = N \<and>
   chan (binit (boot n)) = (\<lambda>_. None) \<and> filled n (binit (boot n)) \<and>
   (\<forall>k<n. refcnt (bufs (binit (boot n)) ! k) = 0 \<and> \<not> locked (lock (bufs (binit (boot n)) ! k)) \<and>
      time (bufs (binit (boot n)) ! k) = 0 \<and> dev (bufs (binit (boot n)) ! k) = 0 \<and>
      \<not> valid (bufs (binit (boot n)) ! k))"
proof -
  let ?s0 = "(boot n)\<lparr>bufs := map (\<lambda>b. b\<lparr>lock := \<lparr>locked = False, pid = 0\<rparr>\<rparr>) (bufs (boot n))\<rparr>"
  have b: "binit (boot n) = binit_loop [0..<n] (0 mod N) ?s0"
    by (simp add: binit_def boot_def)
  have "filled 0 ?s0" by (simp add: filled_def boot_def)
  then have "filled n (binit_loop [0..<n] (0 mod N) ?s0)"
    by (intro binit_loop_filled) (simp_all add: boot_def)
  then show ?thesis
    unfolding b using binit_loop_keeps[of "[0..<n]" "0 mod N" ?s0]
    by (simp add: boot_def zero_buf_def)
qed

lemma inv_init:
  assumes np: "nproc + 1 < 2 ^ 32"
  shows "cache_inv nproc (binit (boot n))"
proof -
  let ?s = "binit (boot n)"
  note f = binit_boot_facts[of n]
  have w: "partitioned ?s"
    unfolding partitioned_def
  proof (intro conjI allI impI)
    show "length (bucket ?s) = N" using f by simp
  next
    fix j assume j: "j < N"
    from f j show "distinct (bucket ?s ! j)" by (simp add: filled_def)
    from f have bl: "\<And>i. i < n \<Longrightarrow> hash (blockno (bufs ?s ! i)) = i mod N"
      by (simp add: filled_def hash_of_nat)
    from f j have "set (bucket ?s ! j) = {i. i < n \<and> i mod N = j}" by (simp add: filled_def)
    also have "\<dots> = {i. i < length (bufs ?s) \<and> hash (blockno (bufs ?s ! i)) = j}"
      using f bl by auto
    finally show "set (bucket ?s ! j) = {i. i < length (bufs ?s) \<and> hash (blockno (bufs ?s ! i)) = j}" .
  qed
  have o: "ordered ?s"
    unfolding ordered_def
  proof (intro allI impI ballI)
    fix j k assume "j < N" "k \<in> set (bucket ?s ! j)"
      "refcnt (bufs ?s ! k) \<noteq> 0 \<or> valid (bufs ?s ! k)"
    with w f have False by (auto simp: wf_mem_iff)
    then show "cached (bufs ?s) (dev (bufs ?s ! k)) (blockno (bufs ?s ! k)) (bucket ?s ! j) = Some k" ..
  qed
  have c: "counted nproc ?s" using f np by (simp add: counted_def holders_def pins_def)
  from w o c show ?thesis by (simp add: cache_inv_def)
qed

text \<open>A pin adds to the pins of a buffer in use, an unpin takes one of them away.\<close>

lemma bpin_inv:
  assumes i: "cache_inv n s" and b: "b < length (bufs s)" and nz: "refcnt (bufs s ! b) \<noteq> 0"
    and room: "pins s b + n + 2 < 2 ^ 32"
  shows "cache_inv n (bpin s b)"
proof -
  from i have w: "partitioned s" and o: "ordered s" and c: "counted n s"
    by (simp_all add: cache_inv_def)
  let ?s = "bpin s b"
  have h: "\<And>k. holders ?s k = holders s k" by (simp add: holders_def bpin_def upd_nth)
  from countedD[OF c b] have hb: "holders s b \<le> unat (refcnt (bufs s ! b))" by simp
  have "card {q. chan s q = Some b} \<le> card {..<n}"
    by (rule card_mono) (use c in \<open>auto simp: counted_def\<close>)
  then have "holders s b \<le> n + 1" by (simp add: holders_def)
  with hb room have "unat (refcnt (bufs s ! b)) + 1 < 2 ^ 32" unfolding pins_def by arith
  then have u: "unat (refcnt (bufs s ! b) + 1) = unat (refcnt (bufs s ! b)) + 1"
    by (simp add: unat_word_ariths)
  then have nz': "refcnt (bufs s ! b) + 1 \<noteq> 0" by (metis Suc_eq_plus1 nat.simps(3) unat_0)
  have w': "partitioned ?s" by (rule wf_cong[OF w]) (simp_all add: bpin_def upd_nth)
  have o': "ordered ?s"
    by (rule ordered_cong[OF o]) (use nz in \<open>auto simp: bpin_def upd_nth split: if_splits\<close>)
  have c': "counted n ?s"
    unfolding counted_def
  proof (intro conjI allI impI)
    fix q k assume "chan ?s q = Some k"
    then show "q < n" "k < length (bufs ?s)" using c by (auto simp: bpin_def counted_def)
  next
    fix k assume "k < length (bufs ?s)"
    then have k: "k < length (bufs s)" by (simp add: bpin_def)
    note e = countedD[OF c k]
    show "holders ?s k \<le> unat (refcnt (bufs ?s ! k))"
    proof (cases "k = b")
      case True
      with hb u b show ?thesis by (simp add: h) (simp add: bpin_def)
    next
      case False
      with e show ?thesis by (simp add: h) (simp add: bpin_def)
    qed
    show "pins ?s k + n + 1 < 2 ^ 32"
    proof (cases "k = b")
      case True
      have "unat (refcnt (bufs ?s ! b)) = unat (refcnt (bufs s ! b)) + 1"
        using u b by (simp add: bpin_def)
      with hb have "pins ?s b = pins s b + 1" unfolding pins_def h by arith
      with room True show ?thesis by simp
    next
      case False
      then have "pins ?s k = pins s k" unfolding pins_def h by (simp add: bpin_def)
      with e show ?thesis by simp
    qed
  qed
  from w' o' c' show ?thesis by (simp add: cache_inv_def)
qed

lemma bunpin_inv:
  assumes i: "cache_inv n s" and b: "b < length (bufs s)" and pinned: "0 < pins s b"
  shows "cache_inv n (bunpin s b)"
proof -
  from i have w: "partitioned s" and o: "ordered s" and c: "counted n s"
    by (simp_all add: cache_inv_def)
  let ?s = "bunpin s b"
  have h: "\<And>k. holders ?s k = holders s k" by (simp add: holders_def bunpin_def upd_nth)
  from pinned have gt: "holders s b < unat (refcnt (bufs s ! b))" unfolding pins_def by arith
  then have nz: "refcnt (bufs s ! b) \<noteq> 0" by auto
  then have u: "unat (refcnt (bufs s ! b) - 1) = unat (refcnt (bufs s ! b)) - 1"
    by (simp add: unat_minus_one)
  have w': "partitioned ?s" by (rule wf_cong[OF w]) (simp_all add: bunpin_def upd_nth)
  have o': "ordered ?s"
    by (rule ordered_cong[OF o]) (use nz in \<open>auto simp: bunpin_def upd_nth split: if_splits\<close>)
  have c': "counted n ?s"
  proof (rule counted_step[OF c])
    fix q k assume "chan ?s q = Some k"
    then show "q < n \<and> k < length (bufs ?s)" using c by (auto simp: bunpin_def counted_def)
  next
    show "length (bufs ?s) = length (bufs s)" by (simp add: bunpin_def)
  next
    fix k assume k: "k < length (bufs s)"
    note e = countedD[OF c k]
    show "holders ?s k \<le> unat (refcnt (bufs ?s ! k)) \<and> pins ?s k \<le> pins s k"
    proof (cases "k = b")
      case True
      have "unat (refcnt (bufs ?s ! b)) = unat (refcnt (bufs s ! b)) - 1"
        using u b by (simp add: bunpin_def)
      with gt have "holders s b \<le> unat (refcnt (bufs ?s ! b)) \<and>
          unat (refcnt (bufs ?s ! b)) - holders s b \<le> unat (refcnt (bufs s ! b)) - holders s b"
        by arith
      with True show ?thesis by (simp add: pins_def h)
    next
      case False
      then have "refcnt (bufs ?s ! k) = refcnt (bufs s ! k)" by (simp add: bunpin_def)
      with e show ?thesis by (simp add: pins_def h)
    qed
  qed
  from w' o' c' show ?thesis by (simp add: cache_inv_def)
qed

lemma kstep_inv:
  assumes i: "cache_inv n s" and n: "n + 1 < 2 ^ 32" and p: "permitted n s c"
    and r: "kstep s c = Some r" "state_of r = Some s'"
  shows "cache_inv n s'"
proof (cases c)
  case (Bread q d blk)
  with r obtain r1 where r1: "bread s q d blk = Some r1" "r = map_result fst r1" by auto
  show ?thesis
  proof (cases "bget s q d blk")
    case None
    with r1 show ?thesis by (simp add: bread_def)
  next
    case (Some rg)
    show ?thesis
    proof (cases rg)
      case (Panic e)
      with Some r1 r show ?thesis by (auto simp: bread_def)
    next
      case (Done sx)
      obtain s1 x where sx: "sx = (s1, x)" by (cases sx)
      with Done Some r1 r have s': "s' = bread_tail s1 x" by (auto simp: bread_def)
      from bget_inv[OF i n _ _ Some, of s1 x] p Bread Done sx have i1: "cache_inv n s1" by simp
      from bget_Done_locked[OF _ Some[unfolded Done sx]] i
      have "x < length (bufs s1)" "locked (lock (bufs s1 ! x))" by (simp_all add: cache_inv_def)
      with counted_locked_refcnt[of n s1 x] i1 have "refcnt (bufs s1 ! x) \<noteq> 0"
        by (simp add: cache_inv_def)
      from bread_tail_inv[OF i1 this] s' show ?thesis by simp
    next
      case (Sleep sx)
      obtain s1 x where sx: "sx = (s1, x)" by (cases sx)
      with Sleep Some r1 r have s': "s' = s1" by (auto simp: bread_def)
      from bget_inv[OF i n _ _ Some, of s1 x] p Bread Sleep sx have "cache_inv n s1" by simp
      with s' show ?thesis by simp
    qed
  qed
next
  case (Wake q)
  with r wake_inv[OF i] show ?thesis by auto
next
  case (Bwrite q b)
  with r have "s' = virtio_disk_rw s b True" by (auto simp: bwrite_def split: if_splits)
  with inv_same_ctl[OF same_ctl_bwrite i] show ?thesis by simp
next
  case (Brelse q b)
  with r have "brelse s q b = Done s'" by (cases "brelse s q b") (auto simp: brelse_def Let_def split: if_splits)
  from brelse_inv[OF i _ this] p Brelse show ?thesis by simp
next
  case (Bpin b)
  with r have "s' = bpin s b" by auto
  with bpin_inv[OF i, of b] p Bpin show ?thesis by simp
next
  case (Bunpin b)
  with r have "s' = bunpin s b" by auto
  with bunpin_inv[OF i, of b] p Bunpin show ?thesis by simp
next
  case Tick
  with r have "s' = tick s" by auto
  with inv_same_ctl[OF same_ctl_tick i] show ?thesis by simp
qed

lemma reachable_inv:
  "reachable nbuf n s \<Longrightarrow> n + 1 < 2 ^ 32 \<Longrightarrow> cache_inv n s"
  by (induction rule: reachable.induct) (auto intro: inv_init kstep_inv)


subsection \<open>What a step leaves unchanged\<close>

lemma globalfind_start:
  "globalfind s p no d blk t None =
     (case snd (scan_global (bufs s) [0..<length (bufs s)] t None) of
        None \<Rightarrow> Some (Panic OutOfBuffers)
      | Some c \<Rightarrow>
          (let no2 = hash (blockno (bufs s ! c)) in
           if no2 = no then Some (Panic Deadlock)
           else (case unlink c (bucket s ! no2) of
                   None \<Rightarrow> Some (Panic Fault)
                 | Some l2 \<Rightarrow>
                     (let bk = (bucket s)[no2 := l2];
                          bk' = bk[no := c # (bk ! no)];
                          bs' = (bufs s)[c := (bufs s ! c)
                                  \<lparr>dev := d, blockno := blk, valid := False, refcnt := 1\<rparr>]
                      in Some (acquiresleep (s\<lparr>bucket := bk', bufs := bs'\<rparr>) p c)))))"
proof (cases "snd (scan_global (bufs s) [0..<length (bufs s)] t None)")
  case None
  then show ?thesis by (subst globalfind.simps) simp
next
  case (Some c)
  from scan_global_Some[OF Some] have "refcnt (bufs s ! c) = 0" by simp
  with Some show ?thesis by (subst globalfind.simps) (simp add: Let_def)
qed

lemma bget_total: "\<exists>r. bget s p d blk = Some r"
  by (auto simp: bget_def globalfind_start Let_def split: sum.splits option.splits prod.splits)

lemma bget_wf:
  assumes w: "partitioned s" and r: "bget s p d blk = Some r" "state_of r = Some (s', x)"
  shows "partitioned s'"
  using w
proof (cases rule: bget_cases[where d=d and blk=blk and p=p])
  case (hit i)
  with r acquiresleep_wf[OF _ wf_hit[OF w]] show ?thesis by auto
next
  case (local b)
  with r acquiresleep_wf[OF _ wf_reclaim[OF w local(2)]] show ?thesis by auto
next
  case (global b)
  with r acquiresleep_wf[OF _ wf_migrate[OF w global(2,4)]] show ?thesis by auto
next
  case panic
  with r show ?thesis by auto
qed

text \<open>What a \<open>bget\<close> that does not panic leaves as it was.\<close>
lemma bget_frame:
  assumes w: "partitioned s" and r: "bget s p d blk = Some r" "state_of r = Some (s', x)"
  shows "length (bufs s') = length (bufs s) \<and> ticks s' = ticks s \<and> io_log s' = io_log s \<and>
     disk s' = disk s \<and>
     (\<forall>k. locked (lock (bufs s ! k)) \<longrightarrow> lock (bufs s' ! k) = lock (bufs s ! k)) \<and>
     (\<forall>k. refcnt (bufs s ! k) \<noteq> 0 \<longrightarrow>
        dev (bufs s' ! k) = dev (bufs s ! k) \<and> blockno (bufs s' ! k) = blockno (bufs s ! k) \<and>
        valid (bufs s' ! k) = valid (bufs s ! k))"
  using w
proof (cases rule: bget_cases[where d=d and blk=blk and p=p])
  case (hit i)
  with r have a: "state_of (acquiresleep (hit s i) p i) = Some (s', x)" by simp
  have "length (bufs (hit s i)) = length (bufs s)" "ticks (hit s i) = ticks s"
    "io_log (hit s i) = io_log s" "disk (hit s i) = disk s"
    "\<And>k. lock (bufs (hit s i) ! k) = lock (bufs s ! k)"
    "\<And>k. dev (bufs (hit s i) ! k) = dev (bufs s ! k)"
    "\<And>k. blockno (bufs (hit s i) ! k) = blockno (bufs s ! k)"
    "\<And>k. valid (bufs (hit s i) ! k) = valid (bufs s ! k)"
    by (simp_all add: hit_def upd_nth)
  with acquiresleep_same[OF a] show ?thesis by simp
next
  case (local b)
  with r have a: "state_of (acquiresleep (reclaim s b d blk) p b) = Some (s', x)" by simp
  let ?s1 = "reclaim s b d blk"
  have "length (bufs ?s1) = length (bufs s)" "ticks ?s1 = ticks s"
    "io_log ?s1 = io_log s" "disk ?s1 = disk s"
    "\<And>k. lock (bufs ?s1 ! k) = lock (bufs s ! k)"
    "\<And>k. refcnt (bufs s ! k) \<noteq> 0 \<Longrightarrow> dev (bufs ?s1 ! k) = dev (bufs s ! k)"
    "\<And>k. refcnt (bufs s ! k) \<noteq> 0 \<Longrightarrow> blockno (bufs ?s1 ! k) = blockno (bufs s ! k)"
    "\<And>k. refcnt (bufs s ! k) \<noteq> 0 \<Longrightarrow> valid (bufs ?s1 ! k) = valid (bufs s ! k)"
    using local(3) by (auto simp: reclaim_def upd_nth)
  with acquiresleep_same[OF a] show ?thesis by simp
next
  case (global b)
  with r have a: "state_of (acquiresleep (migrate s b d blk) p b) = Some (s', x)" by simp
  let ?s1 = "migrate s b d blk"
  have "length (bufs ?s1) = length (bufs s)" "ticks ?s1 = ticks s"
    "io_log ?s1 = io_log s" "disk ?s1 = disk s"
    "\<And>k. lock (bufs ?s1 ! k) = lock (bufs s ! k)"
    "\<And>k. refcnt (bufs s ! k) \<noteq> 0 \<Longrightarrow> dev (bufs ?s1 ! k) = dev (bufs s ! k)"
    "\<And>k. refcnt (bufs s ! k) \<noteq> 0 \<Longrightarrow> blockno (bufs ?s1 ! k) = blockno (bufs s ! k)"
    "\<And>k. refcnt (bufs s ! k) \<noteq> 0 \<Longrightarrow> valid (bufs ?s1 ! k) = valid (bufs s ! k)"
    using global(3) by (auto simp: migrate_def Let_def upd_nth)
  with acquiresleep_same[OF a] show ?thesis by simp
next
  case panic
  with r show ?thesis by auto
qed

lemma bread_split:
  assumes "bread s p d blk = Some r" "state_of r = Some (s', x)"
  obtains s1 where "bget s p d blk = Some (Done (s1, x))" "s' = bread_tail s1 x" "r = Done (s', x)"
  | "bget s p d blk = Some (Sleep (s', x))" "r = Sleep (s', x)"
proof (cases "bget s p d blk")
  case None
  with assms show ?thesis by (simp add: bread_def)
next
  case (Some rg)
  with assms that show ?thesis
    by (cases rg) (auto simp: bread_def)
qed

lemma kstep_wf:
  assumes w: "partitioned s" and r: "kstep s c = Some r" "state_of r = Some s'"
  shows "partitioned s'"
proof (cases c)
  case (Bread q d blk)
  with r obtain r1 x where r1: "bread s q d blk = Some r1" "state_of r1 = Some (s', x)"
    by (cases "bread s q d blk"; cases "the (bread s q d blk)") auto
  from r1 show ?thesis
  proof (cases rule: bread_split)
    case (1 s1)
    from bget_wf[OF w 1(1)] have "partitioned s1" by simp
    then show ?thesis unfolding 1(2) by (rule wf_cong) (simp_all add: bread_tail_same)
  next
    case 2
    from bget_wf[OF w 2(1)] show ?thesis by simp
  qed
next
  case (Wake q)
  with r have s': "s' = wake s q" by auto
  show ?thesis unfolding s' wake_def
    by (auto split: option.splits intro!: wf_cong[OF w] simp: bread_tail_same upd_nth)
next
  case (Bwrite q b)
  with r have "s' = virtio_disk_rw s b True" by (auto simp: bwrite_def split: if_splits)
  with same_ctl_wf[OF same_ctl_bwrite w] show ?thesis by simp
next
  case (Brelse q b)
  with r have "brelse s q b = Done s'" by (cases "brelse s q b") (auto simp: brelse_def Let_def split: if_splits)
  then show ?thesis
    by (auto simp: brelse_def Let_def upd_nth split: if_splits intro!: wf_cong[OF w])
next
  case (Bpin b)
  with r have "s' = bpin s b" by auto
  then show ?thesis by (auto simp: bpin_def upd_nth intro!: wf_cong[OF w])
next
  case (Bunpin b)
  with r have "s' = bunpin s b" by auto
  then show ?thesis by (auto simp: bunpin_def upd_nth intro!: wf_cong[OF w])
next
  case Tick
  with r have "s' = tick s" by auto
  with same_ctl_wf[OF same_ctl_tick w] show ?thesis by simp
qed

lemma kstep_ident:
  assumes w: "partitioned s" and r: "kstep s c = Some r" "state_of r = Some s'"
    and i: "refcnt (bufs s ! i) \<noteq> 0"
  shows "length (bufs s') = length (bufs s) \<and> ident (bufs s' ! i) = ident (bufs s ! i)"
proof (cases c)
  case (Bread q d blk)
  with r obtain r1 x where r1: "bread s q d blk = Some r1" "state_of r1 = Some (s', x)"
    by (cases "bread s q d blk"; cases "the (bread s q d blk)") auto
  from r1 show ?thesis
  proof (cases rule: bread_split)
    case (1 s1)
    from bget_frame[OF w 1(1)] i show ?thesis unfolding 1(2) by (simp add: bread_tail_same ident_def)
  next
    case 2
    from bget_frame[OF w 2(1)] i show ?thesis by (simp add: ident_def)
  qed
next
  case (Wake q)
  with r have s': "s' = wake s q" by auto
  show ?thesis unfolding s' wake_def
    by (auto split: option.splits simp: bread_tail_same upd_nth ident_def)
next
  case (Bwrite q b)
  with r have "s' = virtio_disk_rw s b True" by (auto simp: bwrite_def split: if_splits)
  then show ?thesis by (simp add: virtio_disk_rw_def Let_def)
next
  case (Brelse q b)
  with r have "brelse s q b = Done s'" by (cases "brelse s q b") (auto simp: brelse_def Let_def split: if_splits)
  then show ?thesis
    by (auto simp: brelse_def Let_def upd_nth ident_def split: if_splits)
next
  case (Bpin b)
  with r have "s' = bpin s b" by auto
  then show ?thesis by (auto simp: bpin_def upd_nth ident_def)
next
  case (Bunpin b)
  with r have "s' = bunpin s b" by auto
  then show ?thesis by (auto simp: bunpin_def upd_nth ident_def)
next
  case Tick
  with r have "s' = tick s" by auto
  then show ?thesis by (simp add: tick_def)
qed


subsection \<open>Evaluation on concrete states\<close>

lemma list_update_numeral: "(x # xs)[numeral v := y] = x # xs[numeral v - 1 := y]"
  by (simp add: numeral_eq_Suc)

lemma replicate_numeral: "replicate (numeral v) x = x # replicate (numeral v - 1) x"
  by (simp add: numeral_eq_Suc)

lemma less_max_word: "(x :: 'a::len word) < - 1 \<longleftrightarrow> x \<noteq> - 1"
  by (simp add: word_order.not_eq_extremum)

lemmas eval_defs = less_max_word bread_def bget_def hash_def N_def acquiresleep_def bread_tail_def
  virtio_disk_rw_def ident_def globalfind_start Let_def brelse_def holdingsleep_def
  binit_def boot_def zero_buf_def upt_rec wake_def tick_def bwrite_def bpin_def bunpin_def
  list_update_numeral replicate_numeral

lemma run_reachable:
  "reachable nbuf n s \<Longrightarrow> run n s cs = Some s' \<Longrightarrow> reachable nbuf n s'"
proof (induction cs arbitrary: s)
  case Nil
  then show ?case by simp
next
  case (Cons c cs)
  from Cons.prems(2) obtain r s1 where
    "permitted n s c" "kstep s c = Some r" "state_of r = Some s1" "run n s1 cs = Some s'"
    by (auto split: if_splits option.splits)
  with Cons.IH[of s1] Cons.prems(1) show ?case
    by (blast intro: reachable.step)
qed

lemma run_append:
  "run n s (cs @ ds) = (case run n s cs of None \<Rightarrow> None | Some s' \<Rightarrow> run n s' ds)"
  by (induction cs arbitrary: s) (auto split: option.splits)


lemma two_held_run: "run 3 (binit (boot 3)) [Bread 0 0 0, Bread 1 0 1] = Some two_held"
  by (simp add: two_held_def eval_defs)

lemma two_held_reachable: "reachable 3 3 two_held"
  by (rule run_reachable[OF reachable.init two_held_run])

section \<open>Buffers in use cache distinct blocks\<close>

text \<open>
  C1.  In every state reached from \<open>binit\<close> by fetches (\<open>bread\<close>), writes and releases
  (\<open>brelse\<close>) of up to \<open>nproc\<close> processes, interleaved with wake-ups and ticks, any two
  different buffers whose \<open>refcnt\<close> is greater than 0 have different
  \<open>(dev, blockno)\<close> pairs.
\<close>

theorem unique_in_use:
  assumes "reachable nbuf nproc s" and "nproc + 1 < 2 ^ 32"
    and "i < length (bufs s)" and "j < length (bufs s)" and "i \<noteq> j"
    and "0 < refcnt (bufs s ! i)" and "0 < refcnt (bufs s ! j)"
  shows "ident (bufs s ! i) \<noteq> ident (bufs s ! j)"
proof
  assume e: "ident (bufs s ! i) = ident (bufs s ! j)"
  from reachable_inv[OF assms(1,2)] have w: "partitioned s" and o: "ordered s" by (simp_all add: cache_inv_def)
  let ?h = "hash (blockno (bufs s ! i))"
  from e have d: "dev (bufs s ! j) = dev (bufs s ! i)" "blockno (bufs s ! j) = blockno (bufs s ! i)"
    by (simp_all add: ident_def)
  have h: "?h < N" by (rule hash_less)
  from w h assms(3,4) d have m: "i \<in> set (bucket s ! ?h)" "j \<in> set (bucket s ! ?h)"
    by (simp_all add: wf_mem_iff)
  from assms(6,7) have nz: "refcnt (bufs s ! i) \<noteq> 0" "refcnt (bufs s ! j) \<noteq> 0"
    by (simp_all add: word_neq_0_conv)
  from o h m nz have
    "cached (bufs s) (dev (bufs s ! i)) (blockno (bufs s ! i)) (bucket s ! ?h) = Some i"
    "cached (bufs s) (dev (bufs s ! j)) (blockno (bufs s ! j)) (bucket s ! ?h) = Some j"
    unfolding ordered_def by blast+
  with d assms(5) show False by simp
qed

theorem unique_in_use_witness:
  "reachable 3 3 two_held \<and> (3::nat) + 1 < 2 ^ 32 \<and> (0::nat) < length (bufs two_held) \<and>
   1 < length (bufs two_held) \<and> (0::nat) \<noteq> 1 \<and>
   0 < refcnt (bufs two_held ! 0) \<and> 0 < refcnt (bufs two_held ! 1) \<and>
   ident (bufs two_held ! 0) \<noteq> ident (bufs two_held ! 1)"
proof -
  have h: "(3::nat) + 1 < 2 ^ 32" "(0::nat) < length (bufs two_held)" "1 < length (bufs two_held)"
    "(0::nat) \<noteq> 1" "0 < refcnt (bufs two_held ! 0)" "0 < refcnt (bufs two_held ! 1)"
    by (simp_all add: two_held_def)
  from unique_in_use[OF two_held_reachable h] two_held_reachable h show ?thesis by simp
qed


section \<open>Release\<close>

text \<open>
  C8.  \<open>brelse\<close> panics exactly when the calling process does not hold the buffer's sleep
  lock.  Otherwise it returns a state in which only buffer \<open>b\<close> has changed: its sleep
  lock is released, its \<open>refcnt\<close> is one less, its \<open>time\<close> is the current \<open>ticks\<close> exactly
  when the new \<open>refcnt\<close> is 0, and its other fields are as before.
\<close>

theorem brelse_spec:
  "(brelse s p b = Panic NotLocked) = (\<not> holdingsleep (lock (bufs s ! b)) p) \<and>
   (holdingsleep (lock (bufs s ! b)) p \<longrightarrow> b < length (bufs s) \<longrightarrow>
      (\<exists>s'. brelse s p b = Done s' \<and>
         \<not> locked (lock (bufs s' ! b)) \<and>
         refcnt (bufs s' ! b) = refcnt (bufs s ! b) - 1 \<and>
         time (bufs s' ! b) = (if refcnt (bufs s ! b) - 1 = 0 then ticks s else time (bufs s ! b)) \<and>
         valid (bufs s' ! b) = valid (bufs s ! b) \<and>
         dev (bufs s' ! b) = dev (bufs s ! b) \<and>
         blockno (bufs s' ! b) = blockno (bufs s ! b) \<and>
         data (bufs s' ! b) = data (bufs s ! b) \<and>
         length (bufs s') = length (bufs s) \<and>
         (\<forall>i. i \<noteq> b \<longrightarrow> bufs s' ! i = bufs s ! i) \<and>
         bucket s' = bucket s \<and> ticks s' = ticks s \<and> disk s' = disk s \<and>
         io_log s' = io_log s \<and> chan s' = chan s))"
  by (simp add: brelse_def Let_def)

theorem brelse_spec_witness:
  "holdingsleep (lock (bufs (tick two_held) ! 0)) 0 \<and> 0 < length (bufs (tick two_held)) \<and>
   brelse (tick two_held) 1 0 = Panic NotLocked \<and>
   (\<exists>s'. brelse (tick two_held) 0 0 = Done s' \<and> \<not> locked (lock (bufs s' ! 0)) \<and>
      refcnt (bufs s' ! 0) = 0 \<and> time (bufs s' ! 0) = 1 \<and> valid (bufs s' ! 0) \<and>
      bufs s' ! 1 = bufs (tick two_held) ! 1)"
proof -
  have h: "holdingsleep (lock (bufs (tick two_held) ! 0)) 0" "0 < length (bufs (tick two_held))"
    "\<not> holdingsleep (lock (bufs (tick two_held) ! 0)) 1"
    by (simp_all add: two_held_def tick_def holdingsleep_def)
  from brelse_spec[of "tick two_held" 0 0] h(1,2) obtain s' where
    s': "brelse (tick two_held) 0 0 = Done s'" "\<not> locked (lock (bufs s' ! 0))"
      "refcnt (bufs s' ! 0) = refcnt (bufs (tick two_held) ! 0) - 1"
      "time (bufs s' ! 0) = (if refcnt (bufs (tick two_held) ! 0) - 1 = 0 then ticks (tick two_held)
          else time (bufs (tick two_held) ! 0))"
      "valid (bufs s' ! 0) = valid (bufs (tick two_held) ! 0)"
      "\<forall>i. i \<noteq> 0 \<longrightarrow> bufs s' ! i = bufs (tick two_held) ! i"
    by blast
  from s'(3,4,5) have "refcnt (bufs s' ! 0) = 0" "time (bufs s' ! 0) = 1" "valid (bufs s' ! 0)"
    by (simp_all add: two_held_def tick_def)
  moreover from s'(6) have "bufs s' ! 1 = bufs (tick two_held) ! 1" by simp
  moreover from brelse_spec[of "tick two_held" 1 0] h(3)
  have "brelse (tick two_held) 1 0 = Panic NotLocked" by simp
  ultimately show ?thesis using h s'(1,2) by blast
qed


section \<open>Bucket membership\<close>

lemma two_held_wf: "partitioned two_held"
proof -
  have "(3::nat) + 1 < 2 ^ 32" by simp
  from reachable_inv[OF two_held_reachable this] show ?thesis by (simp add: cache_inv_def)
qed

lemma two_held_migrate: "kstep two_held (Bread 2 0 3) = Some (Done migrated)"
  by (simp add: two_held_def migrated_def eval_defs)

text \<open>
  C10.  \<open>binit\<close> establishes, and every call of the interface, every wake-up and every
  tick preserves, that bucket \<open>j\<close> lists, once each, exactly the buffers whose
  \<open>blockno % N\<close> is \<open>j\<close>.  So a buffer linked into bucket \<open>j\<close> has \<open>blockno % N = j\<close>,
  and the bucket that \<open>brelse\<close>, \<open>bpin\<close> and \<open>bunpin\<close> compute from \<open>blockno % N\<close> is the
  one that lists the buffer.
\<close>

theorem bucket_membership:
  "partitioned (binit (boot nbuf)) \<and>
   (partitioned s \<longrightarrow> kstep s c = Some r \<longrightarrow> state_of r = Some s' \<longrightarrow>
      partitioned s' \<and>
      (\<forall>j<N. \<forall>i \<in> set (bucket s' ! j). hash (blockno (bufs s' ! i)) = j) \<and>
      (\<forall>b<length (bufs s'). b \<in> set (bucket s' ! hash (blockno (bufs s' ! b)))))"
proof (intro conjI impI)
  show "partitioned (binit (boot nbuf))" using inv_init[of 0 nbuf] by (simp add: cache_inv_def)
next
  assume a: "partitioned s" "kstep s c = Some r" "state_of r = Some s'"
  from kstep_wf[OF a] show w: "partitioned s'" .
  then show "\<forall>j<N. \<forall>i \<in> set (bucket s' ! j). hash (blockno (bufs s' ! i)) = j"
    by (simp add: partitioned_def)
  from w show "\<forall>b<length (bufs s'). b \<in> set (bucket s' ! hash (blockno (bufs s' ! b)))"
    by (simp add: wf_bucket_mem)
qed

theorem bucket_membership_witness:
  "partitioned two_held \<and> kstep two_held (Bread 2 0 3) = Some (Done migrated) \<and>
   state_of (Done migrated) = Some migrated \<and> partitioned migrated \<and>
   bucket two_held ! 2 = [2] \<and> bucket migrated ! 2 = [] \<and> bucket migrated ! 3 = [2] \<and>
   hash (blockno (bufs migrated ! 2)) = 3"
proof -
  have "state_of (Done migrated) = Some migrated" by simp
  with bucket_membership[of 3 two_held "Bread 2 0 3" "Done migrated" migrated]
    two_held_wf two_held_migrate
  have "partitioned migrated" by simp
  then show ?thesis using two_held_wf two_held_migrate
    by (simp add: two_held_def migrated_def hash_def N_def)
qed


section \<open>Buffers in use keep their block\<close>




lemma bread_one_held: "bread (binit (boot 3)) 0 0 0 = Some (Done (one_held, 0))"
  by (simp add: one_held_def eval_defs)






section \<open>Unpin\<close>

text \<open>
  C5.  \<open>bunpin\<close> only decrements \<open>refcnt\<close>.  After a fetch, a pin and a release of a
  buffer by a well-behaved caller, the matching unpin brings its \<open>refcnt\<close> from 1 to 0 at
  tick 2 and leaves its \<open>time\<close> at 0: the buffer is not stamped with the current \<open>ticks\<close>,
  as \<open>brelse\<close> would.
\<close>

theorem bunpin_no_stamp:
  "run 1 (binit (boot 3)) [Bread 0 0 0, Bpin 0, Tick, Brelse 0 0, Tick] = Some pinned \<and>
   refcnt (bufs pinned ! 0) = 1 \<and> ticks pinned = 2 \<and>
   permitted 1 pinned (Bunpin 0) \<and>
   kstep pinned (Bunpin 0) = Some (Done (bunpin pinned 0)) \<and>
   refcnt (bufs (bunpin pinned 0) ! 0) = 0 \<and>
   ticks (bunpin pinned 0) = 2 \<and>
   time (bufs (bunpin pinned 0) ! 0) = 0"
  by (simp add: pinned_def eval_defs holders_def pins_def)


section \<open>Violations of the pairing contract\<close>

text \<open>
  C9, as stated, fails: in \<open>two_held\<close>, where process 0 holds buffer 0 and nobody has
  pinned it, a call of \<open>bunpin\<close> does not panic and brings the \<open>refcnt\<close> of the held buffer
  to 0.
\<close>

theorem unmatched_unpin_counterexample:
  "holdingsleep (lock (bufs two_held ! 0)) 0 \<and> refcnt (bufs two_held ! 0) = 1 \<and>
   pins two_held 0 = 0 \<and>
   kstep two_held (Bunpin 0) = Some (Done (bunpin two_held 0)) \<and>
   holdingsleep (lock (bufs (bunpin two_held 0) ! 0)) 0 \<and>
   refcnt (bufs (bunpin two_held 0) ! 0) = 0"
  by (simp add: two_held_def bunpin_def holdingsleep_def pins_def holders_def)

lemma unat_max_u32: "unat (- 1 :: u32) = 4294967295"
  by (simp add: unsigned_minus_1_eq_mask mask_eq_exp_minus_1)

text \<open>
  C9, amended.  \<open>brelse\<close> and \<open>bwrite\<close> of a buffer whose sleep lock the caller does not
  hold panic (release without fetch, flush without the lock), and so do a second
  \<open>brelse\<close> and a \<open>bwrite\<close> right after a \<open>brelse\<close> that returned (double release).
  \<open>bunpin\<close> is not checked: whether or not a pin or a fetch matches it, it returns, it
  decrements \<open>refcnt\<close> (from 0 to \<open>2 ^ 32 - 1\<close>) and it leaves the sleep lock and the
  block of the buffer as they are.
\<close>

theorem pairing_checks:
  "(\<not> holdingsleep (lock (bufs s ! b)) p \<longrightarrow>
      brelse s p b = Panic NotLocked \<and> bwrite s p b = Panic NotLocked) \<and>
   (brelse s p b = Done s' \<longrightarrow> b < length (bufs s) \<longrightarrow>
      brelse s' p b = Panic NotLocked \<and> bwrite s' p b = Panic NotLocked) \<and>
   (b < length (bufs s) \<longrightarrow>
      (\<exists>u. kstep s (Bunpin b) = Some (Done u) \<and>
         refcnt (bufs u ! b) = refcnt (bufs s ! b) - 1 \<and>
         (refcnt (bufs s ! b) = 0 \<longrightarrow> unat (refcnt (bufs u ! b)) = 2 ^ 32 - 1) \<and>
         lock (bufs u ! b) = lock (bufs s ! b) \<and> ident (bufs u ! b) = ident (bufs s ! b) \<and>
         valid (bufs u ! b) = valid (bufs s ! b) \<and> time (bufs u ! b) = time (bufs s ! b)))"
  by (auto simp: brelse_def bwrite_def holdingsleep_def Let_def bunpin_def ident_def
      unat_max_u32 split: if_splits)

theorem pairing_checks_witness:
  "\<not> holdingsleep (lock (bufs two_held ! 0)) 1 \<and>
   brelse two_held 1 0 = Panic NotLocked \<and> bwrite two_held 1 0 = Panic NotLocked \<and>
   (\<exists>s'. brelse two_held 0 0 = Done s' \<and> 0 < length (bufs two_held) \<and>
      brelse s' 0 0 = Panic NotLocked \<and> bwrite s' 0 0 = Panic NotLocked) \<and>
   2 < length (bufs two_held) \<and> refcnt (bufs two_held ! 2) = 0 \<and> pins two_held 2 = 0 \<and>
   (\<exists>u. kstep two_held (Bunpin 2) = Some (Done u) \<and> refcnt (bufs u ! 2) = - 1 \<and>
      unat (refcnt (bufs u ! 2)) = 2 ^ 32 - 1 \<and>
      lock (bufs u ! 2) = lock (bufs two_held ! 2) \<and>
      ident (bufs u ! 2) = ident (bufs two_held ! 2))"
proof -
  have h: "\<not> holdingsleep (lock (bufs two_held ! 0)) 1" "0 < length (bufs two_held)"
    "2 < length (bufs two_held)" "refcnt (bufs two_held ! 2) = 0" "pins two_held 2 = 0"
    by (simp_all add: two_held_def holdingsleep_def pins_def holders_def)
  obtain s' where s': "brelse two_held 0 0 = Done s'"
    by (simp add: two_held_def brelse_def holdingsleep_def Let_def)
  from pairing_checks[of two_held 0 1] h(1)
  have a: "brelse two_held 1 0 = Panic NotLocked" "bwrite two_held 1 0 = Panic NotLocked"
    by simp_all
  from pairing_checks[of two_held 0 0 s'] s' h(2)
  have b: "brelse s' 0 0 = Panic NotLocked" "bwrite s' 0 0 = Panic NotLocked" by simp_all
  from pairing_checks[of two_held 2] h(3,4)
  obtain u where c: "kstep two_held (Bunpin 2) = Some (Done u)"
    "refcnt (bufs u ! 2) = - 1" "unat (refcnt (bufs u ! 2)) = 2 ^ 32 - 1"
    "lock (bufs u ! 2) = lock (bufs two_held ! 2)"
    "ident (bufs u ! 2) = ident (bufs two_held ! 2)"
    by (auto simp: unat_max_u32)
  from h a b c s' show ?thesis by blast
qed


section \<open>The choice of the buffer to reclaim\<close>

lemma scan_global_lru:
  "scan_global bs l t b = (t', b') \<Longrightarrow>
     (b' = b \<and> t' = t \<and> (\<forall>j \<in> set l. refcnt (bs ! j) = 0 \<longrightarrow> t \<le> time (bs ! j))) \<or>
     (\<exists>c pre post. b' = Some c \<and> l = pre @ c # post \<and> refcnt (bs ! c) = 0 \<and>
        time (bs ! c) = t' \<and> t' < t \<and>
        (\<forall>j \<in> set pre. refcnt (bs ! j) = 0 \<longrightarrow> t' < time (bs ! j)) \<and>
        (\<forall>j \<in> set post. refcnt (bs ! j) = 0 \<longrightarrow> t' \<le> time (bs ! j)))"
proof (induction l arbitrary: t b)
  case Nil
  then show ?case by simp
next
  case (Cons i l)
  show ?case
  proof (cases "refcnt (bs ! i) = 0 \<and> time (bs ! i) < t")
    case True
    with Cons.prems have "scan_global bs l (time (bs ! i)) (Some i) = (t', b')" by simp
    from Cons.IH[OF this] show ?thesis
    proof (elim disjE exE conjE)
      assume "b' = Some i" "t' = time (bs ! i)"
        "\<forall>j \<in> set l. refcnt (bs ! j) = 0 \<longrightarrow> time (bs ! i) \<le> time (bs ! j)"
      with True have "b' = Some i \<and> i # l = [] @ i # l \<and> refcnt (bs ! i) = 0 \<and>
        time (bs ! i) = t' \<and> t' < t \<and>
        (\<forall>j \<in> set []. refcnt (bs ! j) = 0 \<longrightarrow> t' < time (bs ! j)) \<and>
        (\<forall>j \<in> set l. refcnt (bs ! j) = 0 \<longrightarrow> t' \<le> time (bs ! j))" by simp
      then show ?thesis by blast
    next
      fix c pre post
      assume "b' = Some c" "l = pre @ c # post" "refcnt (bs ! c) = 0" "time (bs ! c) = t'"
        "t' < time (bs ! i)"
        "\<forall>j \<in> set pre. refcnt (bs ! j) = 0 \<longrightarrow> t' < time (bs ! j)"
        "\<forall>j \<in> set post. refcnt (bs ! j) = 0 \<longrightarrow> t' \<le> time (bs ! j)"
      with True have "b' = Some c \<and> i # l = (i # pre) @ c # post \<and> refcnt (bs ! c) = 0 \<and>
        time (bs ! c) = t' \<and> t' < t \<and>
        (\<forall>j \<in> set (i # pre). refcnt (bs ! j) = 0 \<longrightarrow> t' < time (bs ! j)) \<and>
        (\<forall>j \<in> set post. refcnt (bs ! j) = 0 \<longrightarrow> t' \<le> time (bs ! j))" by auto
      then show ?thesis by blast
    qed
  next
    case False
    with Cons.prems have "scan_global bs l t b = (t', b')" by auto
    from Cons.IH[OF this] show ?thesis
    proof (elim disjE exE conjE)
      assume "b' = b" "t' = t" "\<forall>j \<in> set l. refcnt (bs ! j) = 0 \<longrightarrow> t \<le> time (bs ! j)"
      with False show ?thesis by auto
    next
      fix c pre post
      assume "b' = Some c" "l = pre @ c # post" "refcnt (bs ! c) = 0" "time (bs ! c) = t'"
        "t' < t"
        "\<forall>j \<in> set pre. refcnt (bs ! j) = 0 \<longrightarrow> t' < time (bs ! j)"
        "\<forall>j \<in> set post. refcnt (bs ! j) = 0 \<longrightarrow> t' \<le> time (bs ! j)"
      with False have "b' = Some c \<and> i # l = (i # pre) @ c # post \<and> refcnt (bs ! c) = 0 \<and>
        time (bs ! c) = t' \<and> t' < t \<and>
        (\<forall>j \<in> set (i # pre). refcnt (bs ! j) = 0 \<longrightarrow> t' < time (bs ! j)) \<and>
        (\<forall>j \<in> set post. refcnt (bs ! j) = 0 \<longrightarrow> t' \<le> time (bs ! j))" by auto
      then show ?thesis by blast
    qed
  qed
qed

text \<open>
  On a miss, when the bucket has a free buffer whose \<open>time\<close> is not \<open>0xFFFFFFFF\<close>, \<open>bget\<close>
  reclaims the free buffer of the bucket with the smallest \<open>time\<close>, the first of them in
  list order.
\<close>

lemma lru_local:
  assumes c: "cached (bufs s) d blk (bucket s ! hash blk) = None"
    and k: "k \<in> set (bucket s ! hash blk)" "refcnt (bufs s ! k) = 0" "time (bufs s ! k) \<noteq> - 1"
  shows "\<exists>b pre post. bucket s ! hash blk = pre @ b # post \<and> refcnt (bufs s ! b) = 0 \<and>
     (\<forall>j \<in> set pre. refcnt (bufs s ! j) = 0 \<longrightarrow> time (bufs s ! b) < time (bufs s ! j)) \<and>
     (\<forall>j \<in> set post. refcnt (bufs s ! j) = 0 \<longrightarrow> time (bufs s ! b) \<le> time (bufs s ! j)) \<and>
     bget s p d blk = Some (acquiresleep (reclaim s b d blk) p b)"
proof -
  obtain t' b' where sg: "scan_global (bufs s) (bucket s ! hash blk) (- 1) None = (t', b')"
    by (cases "scan_global (bufs s) (bucket s ! hash blk) (- 1) None")
  from k have "\<not> (\<forall>j \<in> set (bucket s ! hash blk). refcnt (bufs s ! j) = 0 \<longrightarrow> - 1 \<le> time (bufs s ! j))"
    by (auto simp: word_order.extremum_unique intro!: bexI[of _ k])
  with scan_global_lru[OF sg] obtain b pre post where
    b: "b' = Some b" "bucket s ! hash blk = pre @ b # post" "refcnt (bufs s ! b) = 0"
      "time (bufs s ! b) = t'"
      "\<forall>j \<in> set pre. refcnt (bufs s ! j) = 0 \<longrightarrow> t' < time (bufs s ! j)"
      "\<forall>j \<in> set post. refcnt (bufs s ! j) = 0 \<longrightarrow> t' \<le> time (bufs s ! j)"
    by blast
  from sg b(1) have "snd (scan_global (bufs s) (bucket s ! hash blk) (- 1) None) = Some b" by simp
  from bget_local[OF c this] b show ?thesis by blast
qed

lemma three_held_run:
  "run 3 (binit (boot 3)) [Bread 0 0 0, Bread 1 0 1, Bread 2 0 2] = Some three_held"
  by (simp add: three_held_def eval_defs)

lemma three_held_wf: "partitioned three_held"
proof -
  have "(3::nat) + 1 < 2 ^ 32" by simp
  from reachable_inv[OF run_reachable[OF reachable.init three_held_run] this]
  show ?thesis by (simp add: cache_inv_def)
qed

lemma ticks_reachable:
  "reachable nbuf nproc s \<Longrightarrow> reachable nbuf nproc (s\<lparr>ticks := ticks s + of_nat n\<rparr>)"
proof (induction n)
  case 0
  then show ?case by simp
next
  case (Suc n)
  have "kstep (s\<lparr>ticks := ticks s + of_nat n\<rparr>) Tick =
      Some (Done (s\<lparr>ticks := ticks s + of_nat (Suc n)\<rparr>))"
    by (simp add: tick_def add.assoc)
  with Suc show ?case
    by (auto intro: reachable.step[where c = Tick])
qed

lemma stale_reachable: "reachable 3 3 stale"
proof -
  have r: "reachable 3 3 three_held"
    by (rule run_reachable[OF reachable.init three_held_run])
  have "three_held\<lparr>ticks := ticks three_held + of_nat 4294967295\<rparr> = three_held\<lparr>ticks := - 1\<rparr>"
    by (simp add: three_held_def)
  with ticks_reachable[OF r, of 4294967295]
  have r1: "reachable 3 3 (three_held\<lparr>ticks := - 1\<rparr>)" by simp
  have k: "kstep (three_held\<lparr>ticks := - 1\<rparr>) (Brelse 0 0) = Some (Done stale)"
    by (simp add: three_held_def stale_def eval_defs)
  have p: "permitted 3 (three_held\<lparr>ticks := - 1\<rparr>) (Brelse 0 0)"
    by (simp add: three_held_def)
  have "state_of (Done stale) = Some stale" by simp
  from reachable.step[OF r1 p k this] show ?thesis .
qed

text \<open>
  C3.  A free buffer whose \<open>time\<close> is \<open>0xFFFFFFFF\<close> is never chosen, because the scans
  start from \<open>time = -1\<close> and compare with \<open><\<close>.  In \<open>stale\<close> buffer 0 is free and is the
  only buffer of bucket 0; a fetch of block 13, which misses in bucket 0, does not
  reclaim it but panics with "no buffers".
\<close>

theorem lru_skips_max_time:
  "run 3 (binit (boot 3)) [Bread 0 0 0, Bread 1 0 1, Bread 2 0 2] = Some three_held \<and>
   brelse (three_held\<lparr>ticks := - 1\<rparr>) 0 0 = Done stale \<and> reachable 3 3 stale \<and>
   hash 13 = 0 \<and> bucket stale ! 0 = [0] \<and> refcnt (bufs stale ! 0) = 0 \<and>
   time (bufs stale ! 0) = - 1 \<and>
   cached (bufs stale) 0 13 (bucket stale ! 0) = None \<and>
   bread stale 0 0 13 = Some (Panic OutOfBuffers)"
  using stale_reachable by (simp add: three_held_def stale_def cached_def eval_defs)


section \<open>Fetching reads the disk once\<close>

lemma bread_Done:
  assumes w: "partitioned s" and r: "bread s p d blk = Some (Done (s', b))"
  shows "\<exists>s1. bget s p d blk = Some (Done (s1, b)) \<and> s' = bread_tail s1 b \<and>
     b < length (bufs s1) \<and> io_log s1 = io_log s \<and> chan s' = chan s \<and>
     length (bufs s') = length (bufs s) \<and>
     holdingsleep (lock (bufs s' ! b)) p \<and>
     dev (bufs s1 ! b) = d \<and> blockno (bufs s1 ! b) = blk"
proof -
  from r have "state_of (Done (s', b)) = Some (s', b)" by simp
  from r this show ?thesis
  proof (cases rule: bread_split)
    case (1 s1)
    from 1(1) have "state_of (Done (s1, b)) = Some (s1, b)" by simp
    from bget_frame[OF w 1(1) this] bget_Done_locked[OF w 1(1)] 1 show ?thesis
      by (simp add: bread_tail_same holdingsleep_def)
  next
    case 2
    then show ?thesis by simp
  qed
qed

lemma bread_tail_effect:
  assumes "b < length (bufs s1)"
  shows "valid (bufs (bread_tail s1 b) ! b) \<and>
     dev (bufs (bread_tail s1 b) ! b) = dev (bufs s1 ! b) \<and>
     blockno (bufs (bread_tail s1 b) ! b) = blockno (bufs s1 ! b) \<and>
     (valid (bufs s1 ! b) \<longrightarrow> bread_tail s1 b = s1) \<and>
     (\<not> valid (bufs s1 ! b) \<longrightarrow>
        io_log (bread_tail s1 b) = io_log s1 @ [DiskRead (dev (bufs s1 ! b)) (blockno (bufs s1 ! b))] \<and>
        data (bufs (bread_tail s1 b) ! b) = disk s1 (dev (bufs s1 ! b), blockno (bufs s1 ! b)))"
  using assms by (simp add: bread_tail_def virtio_disk_rw_def Let_def ident_def)

lemma bread_valid_hit:
  assumes i: "cache_inv n s" and b: "b < length (bufs s)" "valid (bufs s ! b)"
    "dev (bufs s ! b) = d" "blockno (bufs s ! b) = blk"
  shows "\<exists>r s'. bread s p d blk = Some r \<and> state_of r = Some (s', b) \<and>
     io_log s' = io_log s \<and> valid (bufs s' ! b) \<and>
     (\<not> locked (lock (bufs s ! b)) \<longrightarrow> r = Done (s', b))"
proof -
  from i have w: "partitioned s" and o: "ordered s" by (simp_all add: cache_inv_def)
  from wf_bucket_mem[OF w b(1)] b(4) have m: "b \<in> set (bucket s ! hash blk)" by simp
  with o b(2,3,4) hash_less[of blk]
  have c: "cached (bufs s) d blk (bucket s ! hash blk) = Some b"
    unfolding ordered_def by blast
  note g = bget_hit[OF c, of p]
  show ?thesis
  proof (cases "locked (lock (bufs s ! b))")
    case True
    then have "acquiresleep (hit s b) p b = Sleep ((hit s b)\<lparr>chan := (chan s)(p \<mapsto> b)\<rparr>, b)"
      using b(1) by (simp add: acquiresleep_def hit_def)
    with g b(1,2) True show ?thesis by (simp add: bread_def hit_def)
  next
    case False
    let ?s1 = "(hit s b)\<lparr>bufs := (bufs (hit s b))[b := (bufs (hit s b) ! b)\<lparr>lock := \<lparr>locked = True, pid = p\<rparr>\<rparr>]\<rparr>"
    from False have a: "acquiresleep (hit s b) p b = Done (?s1, b)"
      using b(1) by (simp add: acquiresleep_def hit_def)
    have v: "valid (bufs ?s1 ! b)" "io_log ?s1 = io_log s" using b(1,2) by (simp_all add: hit_def)
    then have "bread_tail ?s1 b = ?s1" by (simp add: bread_tail_def)
    with g a v show ?thesis by (simp add: bread_def)
  qed
qed

lemma acquiresleep_chan:
  "state_of (acquiresleep s1 p b) = Some (s', x) \<Longrightarrow> q \<noteq> p \<Longrightarrow> chan s' q = chan s1 q"
  by (auto simp: acquiresleep_def split: if_splits)

lemma acquiresleep_Sleep:
  "acquiresleep s1 p b = Sleep (s', x) \<Longrightarrow>
   x = b \<and> locked (lock (bufs s1 ! b)) \<and> s' = s1\<lparr>chan := (chan s1)(p \<mapsto> b)\<rparr>"
  by (auto simp: acquiresleep_def split: if_splits)

lemma bget_chan:
  assumes w: "partitioned s" and r: "bget s p d blk = Some r" "state_of r = Some (s', x)"
    and q: "q \<noteq> p"
  shows "chan s' q = chan s q"
  using w
proof (cases rule: bget_cases[where d=d and blk=blk and p=p])
  case (hit i)
  with r have "state_of (acquiresleep (hit s i) p i) = Some (s', x)" by simp
  from acquiresleep_chan[OF this q] show ?thesis by (simp add: hit_def)
next
  case (local b)
  with r have "state_of (acquiresleep (reclaim s b d blk) p b) = Some (s', x)" by simp
  from acquiresleep_chan[OF this q] show ?thesis by (simp add: reclaim_def)
next
  case (global b)
  with r have "state_of (acquiresleep (migrate s b d blk) p b) = Some (s', x)" by simp
  from acquiresleep_chan[OF this q] show ?thesis by (simp add: migrate_def Let_def)
next
  case panic
  with r show ?thesis by auto
qed

text \<open>A \<open>bget\<close> that goes to sleep has found or claimed its buffer and waits for its lock.\<close>

lemma bget_Sleep:
  assumes w: "partitioned s" and r: "bget s p d blk = Some (Sleep (s', x))"
  shows "x < length (bufs s') \<and> locked (lock (bufs s' ! x)) \<and> chan s' p = Some x \<and>
     io_log s' = io_log s \<and> dev (bufs s' ! x) = d \<and> blockno (bufs s' ! x) = blk"
  using w
proof (cases rule: bget_cases[where d=d and blk=blk and p=p])
  case (hit i)
  with r have a: "acquiresleep (hit s i) p i = Sleep (s', x)" by simp
  from cached_Some_mem[OF hit(1)] w have il: "i < length (bufs s)" "dev (bufs s ! i) = d"
    "blockno (bufs s ! i) = blk"
    using hash_less[of blk] by (simp_all add: wf_mem_iff)
  from acquiresleep_Sleep[OF a] il show ?thesis by (simp add: hit_def)
next
  case (local b)
  with r have a: "acquiresleep (reclaim s b d blk) p b = Sleep (s', x)" by simp
  from local(2) w have bl: "b < length (bufs s)"
    using hash_less[of blk] by (simp add: wf_mem_iff)
  from acquiresleep_Sleep[OF a] bl show ?thesis by (simp add: reclaim_def)
next
  case (global b)
  with r have a: "acquiresleep (migrate s b d blk) p b = Sleep (s', x)" by simp
  from acquiresleep_Sleep[OF a] global(2) show ?thesis by (simp add: migrate_def Let_def)
next
  case panic
  with r show ?thesis by simp
qed

lemma bread_Sleep:
  assumes w: "partitioned s" and r: "bread s p d blk = Some (Sleep (s', x))"
  shows "x < length (bufs s') \<and> locked (lock (bufs s' ! x)) \<and> chan s' p = Some x \<and>
     io_log s' = io_log s \<and> dev (bufs s' ! x) = d \<and> blockno (bufs s' ! x) = blk"
proof -
  from r have "state_of (Sleep (s', x)) = Some (s', x)" by simp
  from r this show ?thesis
  proof (cases rule: bread_split)
    case (1 s1)
    then show ?thesis by simp
  next
    case 2
    from bget_Sleep[OF w 2(1)] show ?thesis .
  qed
qed

text \<open>
  The wake-up of a process asleep on buffer \<open>b\<close>: nothing happens while the lock is held;
  when it is free, the process takes it and finishes \<open>bread\<close>.
\<close>

lemma wake_effect:
  assumes c: "chan s p = Some b" and b: "b < length (bufs s)"
  shows "(locked (lock (bufs s ! b)) \<longrightarrow> wake s p = s) \<and>
     (\<not> locked (lock (bufs s ! b)) \<longrightarrow>
        chan (wake s p) = (chan s)(p := None) \<and>
        lock (bufs (wake s p) ! b) = \<lparr>locked = True, pid = p\<rparr> \<and>
        valid (bufs (wake s p) ! b) \<and>
        dev (bufs (wake s p) ! b) = dev (bufs s ! b) \<and>
        blockno (bufs (wake s p) ! b) = blockno (bufs s ! b) \<and>
        (valid (bufs s ! b) \<longrightarrow> io_log (wake s p) = io_log s \<and>
           data (bufs (wake s p) ! b) = data (bufs s ! b)) \<and>
        (\<not> valid (bufs s ! b) \<longrightarrow>
           io_log (wake s p) = io_log s @ [DiskRead (dev (bufs s ! b)) (blockno (bufs s ! b))] \<and>
           data (bufs (wake s p) ! b) = disk s (dev (bufs s ! b), blockno (bufs s ! b))))"
  using c b by (simp add: wake_def bread_tail_def virtio_disk_rw_def Let_def ident_def)

lemma asleep_in_use:
  assumes "counted n s" "chan s p = Some b"
  shows "b < length (bufs s) \<and> refcnt (bufs s ! b) \<noteq> 0"
proof -
  from assms have b: "b < length (bufs s)" by (auto simp: counted_def)
  from counted_free[OF assms(1) b] assms(2) have "refcnt (bufs s ! b) \<noteq> 0" by blast
  with b show ?thesis by simp
qed

text \<open>Only its own wake-up ends the sleep of a process.\<close>

lemma kstep_asleep:
  assumes w: "partitioned s" and pm: "permitted n s c"
    and r: "kstep s c = Some r" "state_of r = Some s'"
    and a: "chan s p = Some b" and c: "c \<noteq> Wake p"
  shows "chan s' p = Some b"
proof (cases c)
  case (Bread q d blk)
  with pm a have q: "p \<noteq> q" by auto
  from Bread r obtain r1 x where r1: "bread s q d blk = Some r1" "state_of r1 = Some (s', x)"
    by (cases "bread s q d blk"; cases "the (bread s q d blk)") auto
  from r1 show ?thesis
  proof (cases rule: bread_split)
    case (1 s1)
    from 1(1) have "state_of (Done (s1, x)) = Some (s1, x)" by simp
    from bget_chan[OF w 1(1) this q] a show ?thesis unfolding 1(2) by (simp add: bread_tail_same)
  next
    case 2
    from 2(1) have "state_of (Sleep (s', x)) = Some (s', x)" by simp
    from bget_chan[OF w 2(1) this q] a show ?thesis by simp
  qed
next
  case (Wake q)
  with c have "q \<noteq> p" by simp
  with Wake r a show ?thesis
    by (auto simp: wake_def bread_tail_same split: option.splits)
next
  case (Bwrite q b')
  with r have "s' = virtio_disk_rw s b' True" by (auto simp: bwrite_def split: if_splits)
  with a show ?thesis by (simp add: virtio_disk_rw_def Let_def)
next
  case (Brelse q b')
  with r have "brelse s q b' = Done s'"
    by (cases "brelse s q b'") (auto simp: brelse_def Let_def split: if_splits)
  with a show ?thesis by (auto simp: brelse_def Let_def split: if_splits)
next
  case (Bpin b')
  with r a show ?thesis by (auto simp: bpin_def)
next
  case (Bunpin b')
  with r a show ?thesis by (auto simp: bunpin_def)
next
  case Tick
  with r a show ?thesis by (auto simp: tick_def)
qed

lemma run_asleep:
  assumes "cache_inv n s" and "n + 1 < 2 ^ 32" and "chan s p = Some b"
    and "run n s cs = Some s'" and "Wake p \<notin> set cs"
  shows "cache_inv n s' \<and> chan s' p = Some b \<and> b < length (bufs s') \<and>
     ident (bufs s' ! b) = ident (bufs s ! b)"
  using assms
proof (induction cs arbitrary: s)
  case Nil
  then show ?case using asleep_in_use[of n s p b] by (simp add: cache_inv_def)
next
  case (Cons c cs)
  from Cons.prems(4) obtain r s1 where
    st: "permitted n s c" "kstep s c = Some r" "state_of r = Some s1" "run n s1 cs = Some s'"
    by (auto split: if_splits option.splits)
  from Cons.prems(1) have w: "partitioned s" and cn: "counted n s" by (simp_all add: cache_inv_def)
  from asleep_in_use[OF cn Cons.prems(3)] have nz: "refcnt (bufs s ! b) \<noteq> 0" by simp
  from kstep_ident[OF w st(2,3) nz] have id: "ident (bufs s1 ! b) = ident (bufs s ! b)" by simp
  from Cons.prems(5) have ne: "c \<noteq> Wake p" "Wake p \<notin> set cs" by auto
  from kstep_asleep[OF w st(1,2,3) Cons.prems(3) ne(1)] have a1: "chan s1 p = Some b" .
  from kstep_inv[OF Cons.prems(1,2) st(1,2,3)] have i1: "cache_inv n s1" .
  from Cons.IH[OF i1 Cons.prems(2) a1 st(4) ne(2)] id show ?case by simp
qed

lemma brelse_stolen: "brelse stolen 0 0 = Done vacated"
  by (simp add: vacated_def stolen_def wrapped_def one_held_def brelse_def holdingsleep_def)

lemma one_held_reachable: "reachable 3 3 one_held"
proof -
  have "run 3 (binit (boot 3)) [Bread 0 0 0] = Some one_held"
    by (simp add: one_held_def eval_defs)
  from run_reachable[OF reachable.init this] show ?thesis .
qed

lemma bread_queued: "bread one_held 1 0 0 = Some (Sleep (queued, 0))"
  by (simp add: queued_def one_held_def eval_defs)

lemma run_handed: "run 3 queued [Brelse 0 0] = Some handed"
  by (simp add: handed_def queued_def one_held_def eval_defs)

text \<open>
  C7.  A \<open>bread\<close> that returns buffer \<open>b\<close> has called \<open>virtio_disk_rw\<close> to read block
  \<open>(dev, blockno)\<close> exactly when \<open>bget\<close> returned \<open>b\<close> with \<open>valid\<close> clear, and \<open>b\<close> is
  valid afterwards.  In every reachable state, a \<open>bread\<close> of the block that a valid
  buffer \<open>b\<close> caches finds \<open>b\<close> and does not read the disk; it returns at once when the
  sleep lock of \<open>b\<close> is free.  So after a \<open>bread\<close> and the \<open>brelse\<close> of its buffer, a second
  \<open>bread\<close> of the same block returns the same buffer, valid, without reading the disk.
  A \<open>bread\<close> that finds the sleep lock of its buffer \<open>b\<close> held goes to sleep on \<open>b\<close> without
  reading the disk.  Whatever the other callers do meanwhile, the process stays asleep
  on \<open>b\<close>, and \<open>b\<close> keeps \<open>(dev, blockno)\<close>, until the process is woken.  In any state \<open>u\<close>,
  the wake-up of a process asleep on \<open>b\<close> changes nothing while the lock of \<open>b\<close> is held;
  the wake-up that finds the lock free gives it to the process and finishes \<open>bread\<close>:
  \<open>virtio_disk_rw\<close> reads the block of \<open>b\<close> exactly when \<open>valid\<close> is clear, and \<open>b\<close> is valid
  afterwards.
\<close>

theorem bread_reads_once:
  assumes "reachable nbuf nproc s" and "nproc + 1 < 2 ^ 32"
  shows
    "(bread s p d blk = Some (Done (s', b)) \<longrightarrow>
        (\<exists>s1. bget s p d blk = Some (Done (s1, b)) \<and> io_log s1 = io_log s \<and>
           (valid (bufs s1 ! b) \<longrightarrow> s' = s1) \<and>
           (\<not> valid (bufs s1 ! b) \<longrightarrow>
              io_log s' = io_log s1 @ [DiskRead d blk] \<and> data (bufs s' ! b) = disk s1 (d, blk)) \<and>
           valid (bufs s' ! b) \<and> dev (bufs s' ! b) = d \<and> blockno (bufs s' ! b) = blk)) \<and>
     (c < length (bufs s) \<longrightarrow> valid (bufs s ! c) \<longrightarrow> dev (bufs s ! c) = d \<longrightarrow>
      blockno (bufs s ! c) = blk \<longrightarrow>
        (\<exists>r s3. bread s q d blk = Some r \<and> state_of r = Some (s3, c) \<and>
           io_log s3 = io_log s \<and> valid (bufs s3 ! c) \<and>
           (\<not> locked (lock (bufs s ! c)) \<longrightarrow> r = Done (s3, c)))) \<and>
     (p < nproc \<longrightarrow> chan s p = None \<longrightarrow> bread s p d blk = Some (Done (s', b)) \<longrightarrow>
        (\<exists>s2 s3. brelse s' p b = Done s2 \<and> bread s2 q d blk = Some (Done (s3, b)) \<and>
           io_log s3 = io_log s2 \<and> io_log s2 = io_log s' \<and> valid (bufs s3 ! b))) \<and>
     (p < nproc \<longrightarrow> chan s p = None \<longrightarrow> bread s p d blk = Some (Sleep (z, b)) \<longrightarrow>
        io_log z = io_log s \<and> chan z p = Some b \<and> locked (lock (bufs z ! b)) \<and>
        dev (bufs z ! b) = d \<and> blockno (bufs z ! b) = blk \<and>
        (run nproc z cs = Some t \<longrightarrow> Wake p \<notin> set cs \<longrightarrow>
           chan t p = Some b \<and> b < length (bufs t) \<and>
           dev (bufs t ! b) = d \<and> blockno (bufs t ! b) = blk)) \<and>
     (chan u p = Some b \<longrightarrow> b < length (bufs u) \<longrightarrow>
        (locked (lock (bufs u ! b)) \<longrightarrow> wake u p = u) \<and>
        (\<not> locked (lock (bufs u ! b)) \<longrightarrow>
           chan (wake u p) p = None \<and> holdingsleep (lock (bufs (wake u p) ! b)) p \<and>
           valid (bufs (wake u p) ! b) \<and>
           dev (bufs (wake u p) ! b) = dev (bufs u ! b) \<and>
           blockno (bufs (wake u p) ! b) = blockno (bufs u ! b) \<and>
           (valid (bufs u ! b) \<longrightarrow> io_log (wake u p) = io_log u \<and>
              data (bufs (wake u p) ! b) = data (bufs u ! b)) \<and>
           (\<not> valid (bufs u ! b) \<longrightarrow>
              io_log (wake u p) =
                io_log u @ [DiskRead (dev (bufs u ! b)) (blockno (bufs u ! b))] \<and>
              data (bufs (wake u p) ! b) =
                disk u (dev (bufs u ! b), blockno (bufs u ! b)))))"
proof (intro conjI)
  from reachable_inv[OF assms] have i: "cache_inv nproc s" .
  then have w: "partitioned s" by (simp add: cache_inv_def)
  show "bread s p d blk = Some (Done (s', b)) \<longrightarrow>
        (\<exists>s1. bget s p d blk = Some (Done (s1, b)) \<and> io_log s1 = io_log s \<and>
           (valid (bufs s1 ! b) \<longrightarrow> s' = s1) \<and>
           (\<not> valid (bufs s1 ! b) \<longrightarrow>
              io_log s' = io_log s1 @ [DiskRead d blk] \<and> data (bufs s' ! b) = disk s1 (d, blk)) \<and>
           valid (bufs s' ! b) \<and> dev (bufs s' ! b) = d \<and> blockno (bufs s' ! b) = blk)"
  proof
    assume r: "bread s p d blk = Some (Done (s', b))"
    from bread_Done[OF w r] obtain s1 where
      s1: "bget s p d blk = Some (Done (s1, b))" "s' = bread_tail s1 b" "b < length (bufs s1)"
        "io_log s1 = io_log s" "dev (bufs s1 ! b) = d" "blockno (bufs s1 ! b) = blk"
      by blast
    from bread_tail_effect[OF s1(3)] s1
    show "\<exists>s1. bget s p d blk = Some (Done (s1, b)) \<and> io_log s1 = io_log s \<and>
           (valid (bufs s1 ! b) \<longrightarrow> s' = s1) \<and>
           (\<not> valid (bufs s1 ! b) \<longrightarrow>
              io_log s' = io_log s1 @ [DiskRead d blk] \<and> data (bufs s' ! b) = disk s1 (d, blk)) \<and>
           valid (bufs s' ! b) \<and> dev (bufs s' ! b) = d \<and> blockno (bufs s' ! b) = blk"
      by (intro exI[of _ s1]) simp
  qed
  show "c < length (bufs s) \<longrightarrow> valid (bufs s ! c) \<longrightarrow> dev (bufs s ! c) = d \<longrightarrow>
      blockno (bufs s ! c) = blk \<longrightarrow>
        (\<exists>r s3. bread s q d blk = Some r \<and> state_of r = Some (s3, c) \<and>
           io_log s3 = io_log s \<and> valid (bufs s3 ! c) \<and>
           (\<not> locked (lock (bufs s ! c)) \<longrightarrow> r = Done (s3, c)))"
  proof (intro impI)
    assume "c < length (bufs s)" "valid (bufs s ! c)" "dev (bufs s ! c) = d" "blockno (bufs s ! c) = blk"
    from bread_valid_hit[OF i this]
    show "\<exists>r s3. bread s q d blk = Some r \<and> state_of r = Some (s3, c) \<and>
           io_log s3 = io_log s \<and> valid (bufs s3 ! c) \<and>
           (\<not> locked (lock (bufs s ! c)) \<longrightarrow> r = Done (s3, c))" .
  qed
  show "p < nproc \<longrightarrow> chan s p = None \<longrightarrow> bread s p d blk = Some (Done (s', b)) \<longrightarrow>
        (\<exists>s2 s3. brelse s' p b = Done s2 \<and> bread s2 q d blk = Some (Done (s3, b)) \<and>
           io_log s3 = io_log s2 \<and> io_log s2 = io_log s' \<and> valid (bufs s3 ! b))"
  proof (intro impI)
    assume p: "p < nproc" "chan s p = None" and r: "bread s p d blk = Some (Done (s', b))"
    from r have k: "kstep s (Bread p d blk) = Some (Done s')" by simp
    from p have "permitted nproc s (Bread p d blk)" by simp
    from kstep_inv[OF i assms(2) this k] have i1: "cache_inv nproc s'" by simp
    from bread_Done[OF w r] obtain s1 where
      s1: "s' = bread_tail s1 b" "b < length (bufs s1)" "chan s' = chan s"
        "holdingsleep (lock (bufs s' ! b)) p" "dev (bufs s1 ! b) = d" "blockno (bufs s1 ! b) = blk"
      by blast
    from bread_tail_effect[OF s1(2)] s1 have e: "valid (bufs s' ! b)" "dev (bufs s' ! b) = d"
      "blockno (bufs s' ! b) = blk" "b < length (bufs s')"
      by (simp_all add: bread_tail_same)
    from s1(4) e(4) obtain s2 where s2: "brelse s' p b = Done s2"
      "\<not> locked (lock (bufs s2 ! b))" "valid (bufs s2 ! b) = valid (bufs s' ! b)"
      "dev (bufs s2 ! b) = dev (bufs s' ! b)" "blockno (bufs s2 ! b) = blockno (bufs s' ! b)"
      "length (bufs s2) = length (bufs s')" "io_log s2 = io_log s'"
      by (auto simp: brelse_def Let_def)
    from brelse_inv[OF i1 e(4) s2(1)] have i2: "cache_inv nproc s2" .
    from bread_valid_hit[OF i2, of b d blk q] e s2 obtain s3 where
      "bread s2 q d blk = Some (Done (s3, b))" "io_log s3 = io_log s2" "valid (bufs s3 ! b)"
      by auto
    with s2 show "\<exists>s2 s3. brelse s' p b = Done s2 \<and> bread s2 q d blk = Some (Done (s3, b)) \<and>
           io_log s3 = io_log s2 \<and> io_log s2 = io_log s' \<and> valid (bufs s3 ! b)"
      by blast
  qed
  show "p < nproc \<longrightarrow> chan s p = None \<longrightarrow> bread s p d blk = Some (Sleep (z, b)) \<longrightarrow>
        io_log z = io_log s \<and> chan z p = Some b \<and> locked (lock (bufs z ! b)) \<and>
        dev (bufs z ! b) = d \<and> blockno (bufs z ! b) = blk \<and>
        (run nproc z cs = Some t \<longrightarrow> Wake p \<notin> set cs \<longrightarrow>
           chan t p = Some b \<and> b < length (bufs t) \<and>
           dev (bufs t ! b) = d \<and> blockno (bufs t ! b) = blk)"
  proof (intro impI conjI)
    assume p: "p < nproc" "chan s p = None" and r: "bread s p d blk = Some (Sleep (z, b))"
    note sl = bread_Sleep[OF w r]
    from sl show "io_log z = io_log s" "chan z p = Some b" "locked (lock (bufs z ! b))"
      "dev (bufs z ! b) = d" "blockno (bufs z ! b) = blk" by simp_all
    from r have k: "kstep s (Bread p d blk) = Some (Sleep z)" by simp
    from p have "permitted nproc s (Bread p d blk)" by simp
    from kstep_inv[OF i assms(2) this k] have iz: "cache_inv nproc z" by simp
    assume rn: "run nproc z cs = Some t" and nw: "Wake p \<notin> set cs"
    from sl have cz: "chan z p = Some b" by simp
    from run_asleep[OF iz assms(2) cz rn nw] sl
    show "chan t p = Some b" "b < length (bufs t)" "dev (bufs t ! b) = d"
      "blockno (bufs t ! b) = blk"
      by (simp_all add: ident_def)
  qed
  show "chan u p = Some b \<longrightarrow> b < length (bufs u) \<longrightarrow>
        (locked (lock (bufs u ! b)) \<longrightarrow> wake u p = u) \<and>
        (\<not> locked (lock (bufs u ! b)) \<longrightarrow>
           chan (wake u p) p = None \<and> holdingsleep (lock (bufs (wake u p) ! b)) p \<and>
           valid (bufs (wake u p) ! b) \<and>
           dev (bufs (wake u p) ! b) = dev (bufs u ! b) \<and>
           blockno (bufs (wake u p) ! b) = blockno (bufs u ! b) \<and>
           (valid (bufs u ! b) \<longrightarrow> io_log (wake u p) = io_log u \<and>
              data (bufs (wake u p) ! b) = data (bufs u ! b)) \<and>
           (\<not> valid (bufs u ! b) \<longrightarrow>
              io_log (wake u p) =
                io_log u @ [DiskRead (dev (bufs u ! b)) (blockno (bufs u ! b))] \<and>
              data (bufs (wake u p) ! b) =
                disk u (dev (bufs u ! b), blockno (bufs u ! b))))"
  proof (intro impI)
    assume "chan u p = Some b" "b < length (bufs u)"
    from wake_effect[OF this] show "(locked (lock (bufs u ! b)) \<longrightarrow> wake u p = u) \<and>
        (\<not> locked (lock (bufs u ! b)) \<longrightarrow>
           chan (wake u p) p = None \<and> holdingsleep (lock (bufs (wake u p) ! b)) p \<and>
           valid (bufs (wake u p) ! b) \<and>
           dev (bufs (wake u p) ! b) = dev (bufs u ! b) \<and>
           blockno (bufs (wake u p) ! b) = blockno (bufs u ! b) \<and>
           (valid (bufs u ! b) \<longrightarrow> io_log (wake u p) = io_log u \<and>
              data (bufs (wake u p) ! b) = data (bufs u ! b)) \<and>
           (\<not> valid (bufs u ! b) \<longrightarrow>
              io_log (wake u p) =
                io_log u @ [DiskRead (dev (bufs u ! b)) (blockno (bufs u ! b))] \<and>
              data (bufs (wake u p) ! b) =
                disk u (dev (bufs u ! b), blockno (bufs u ! b))))"
      by (simp add: holdingsleep_def)
  qed
qed

theorem bread_reads_once_witness:
  "reachable 3 3 (binit (boot 3)) \<and> (3::nat) + 1 < 2 ^ 32 \<and> (0::nat) < 3 \<and>
   chan (binit (boot 3)) 0 = None \<and>
   bread (binit (boot 3)) 0 0 0 = Some (Done (one_held, 0)) \<and>
   \<not> valid (bufs (binit (boot 3)) ! 0) \<and> io_log (binit (boot 3)) = [] \<and>
   io_log one_held = [DiskRead 0 0] \<and> valid (bufs one_held ! 0) \<and>
   (\<exists>s2 s3. brelse one_held 0 0 = Done s2 \<and> bread s2 1 0 0 = Some (Done (s3, 0)) \<and>
      io_log s3 = [DiskRead 0 0] \<and> valid (bufs s3 ! 0)) \<and>
   reachable 3 3 one_held \<and> (1::nat) < 3 \<and> chan one_held 1 = None \<and>
   bread one_held 1 0 0 = Some (Sleep (queued, 0)) \<and>
   io_log queued = [DiskRead 0 0] \<and> chan queued 1 = Some 0 \<and>
   locked (lock (bufs queued ! 0)) \<and> wake queued 1 = queued \<and>
   run 3 queued [Brelse 0 0] = Some handed \<and> Wake 1 \<notin> set [Brelse 0 0] \<and>
   chan handed 1 = Some 0 \<and> \<not> locked (lock (bufs handed ! 0)) \<and> valid (bufs handed ! 0) \<and>
   chan (wake handed 1) 1 = None \<and> holdingsleep (lock (bufs (wake handed 1) ! 0)) 1 \<and>
   valid (bufs (wake handed 1) ! 0) \<and> dev (bufs (wake handed 1) ! 0) = 0 \<and>
   blockno (bufs (wake handed 1) ! 0) = 0 \<and> io_log (wake handed 1) = [DiskRead 0 0] \<and>
   brelse stolen 0 0 = Done vacated \<and> chan vacated 2 = Some 0 \<and>
   0 < length (bufs vacated) \<and> \<not> locked (lock (bufs vacated ! 0)) \<and>
   \<not> valid (bufs vacated ! 0) \<and> io_log vacated = [DiskRead 0 0] \<and>
   io_log (wake vacated 2) = [DiskRead 0 0, DiskRead 0 13] \<and>
   valid (bufs (wake vacated 2) ! 0) \<and> holdingsleep (lock (bufs (wake vacated 2) ! 0)) 2"
proof -
  have n: "(3::nat) + 1 < 2 ^ 32" by simp
  have h: "(0::nat) < 3" "chan (binit (boot 3)) 0 = None"
    "\<not> valid (bufs (binit (boot 3)) ! 0)" "io_log (binit (boot 3)) = []"
    "io_log one_held = [DiskRead 0 0]" "valid (bufs one_held ! 0)"
    by (simp_all add: one_held_def eval_defs)
  from bread_reads_once[OF reachable.init n, where s'=one_held and p=0 and d=0 and blk=0
      and b=0 and q=1] h(1,2) bread_one_held
  obtain s2 s3 where "brelse one_held 0 0 = Done s2" "bread s2 1 0 0 = Some (Done (s3, 0))"
    "io_log s3 = io_log s2" "io_log s2 = io_log one_held" "valid (bufs s3 ! 0)"
    by blast
  with h have first: "\<exists>s2 s3. brelse one_held 0 0 = Done s2 \<and>
      bread s2 1 0 0 = Some (Done (s3, 0)) \<and> io_log s3 = [DiskRead 0 0] \<and> valid (bufs s3 ! 0)"
    by auto
  have g: "(1::nat) < 3" "chan one_held 1 = None" "Wake 1 \<notin> set [Brelse 0 0]"
    "io_log queued = [DiskRead 0 0]" "\<not> locked (lock (bufs handed ! 0))"
    "valid (bufs handed ! 0)" "io_log handed = [DiskRead 0 0]"
    by (simp_all add: one_held_def queued_def handed_def)
  have l: "0 < length (bufs queued)" by (simp add: queued_def one_held_def)
  note th = bread_reads_once[OF one_held_reachable n, where p=1 and d=0 and blk=0 and b=0
      and z=queued]
  from th[where u=queued] g(1,2) bread_queued l
  have asleep: "chan queued 1 = Some 0" "locked (lock (bufs queued ! 0))" "wake queued 1 = queued"
    by simp_all
  from th[where cs="[Brelse 0 0]" and t=handed and u=handed] g bread_queued run_handed
  have woken: "chan handed 1 = Some 0" "chan (wake handed 1) 1 = None"
    "holdingsleep (lock (bufs (wake handed 1) ! 0)) 1" "valid (bufs (wake handed 1) ! 0)"
    "dev (bufs (wake handed 1) ! 0) = 0" "blockno (bufs (wake handed 1) ! 0) = 0"
    "io_log (wake handed 1) = [DiskRead 0 0]"
    by simp_all
  have v: "chan vacated 2 = Some 0" "0 < length (bufs vacated)"
    "\<not> locked (lock (bufs vacated ! 0))" "\<not> valid (bufs vacated ! 0)"
    "io_log vacated = [DiskRead 0 0]" "dev (bufs vacated ! 0) = 0"
    "blockno (bufs vacated ! 0) = 13"
    by (simp_all add: vacated_def stolen_def wrapped_def one_held_def)
  from bread_reads_once[OF reachable.init n, where u=vacated and p=2 and b=0,
      THEN conjunct2, THEN conjunct2, THEN conjunct2, THEN conjunct2] v
  have late: "io_log (wake vacated 2) = [DiskRead 0 0, DiskRead 0 13]"
    "valid (bufs (wake vacated 2) ! 0)" "holdingsleep (lock (bufs (wake vacated 2) ! 0)) 2"
    by simp_all
  from h n bread_one_held reachable.init[of 3 3] first one_held_reachable g bread_queued
    run_handed asleep woken brelse_stolen v(1-5) late
  show ?thesis by blast
qed


section \<open>Calls that overlap\<close>

text \<open>
  A call of \<open>bget\<close> that no other call overlaps goes, step by step, to the result of
  \<open>bget\<close>: it returns the same buffer in the same state, it panics in the same way, or
  it stops before \<open>acquiresleep\<close> where \<open>bget\<close> goes to sleep.
\<close>

lemma solo_bget:
  "case bget s p d blk of
     None \<Rightarrow> False
   | Some (Done (s', b)) \<Rightarrow> solo 7 p d blk (unlocked s) Start = (unlocked s', Returned b)
   | Some (Sleep (s', b)) \<Rightarrow>
       solo 7 p d blk (unlocked s) Start = (unlocked (s'\<lparr>chan := chan s\<rparr>), Locking b)
   | Some (Panic e) \<Rightarrow> snd (solo 7 p d blk (unlocked s) Start) = Panicked e"
proof (cases "scan_local (bufs s) d blk (bucket s ! hash blk) (- 1) None")
  case (Inl i)
  then show ?thesis
    by (simp add: bget_def acquiresleep_def unlocked_def eval_nat_numeral Let_def upd_nth)
next
  case (Inr r)
  obtain t b where r: "r = (t, b)" by (cases r)
  show ?thesis
  proof (cases b)
    case (Some b')
    with Inr r show ?thesis
      by (simp add: bget_def acquiresleep_def unlocked_def eval_nat_numeral Let_def upd_nth)
  next
    case None
    show ?thesis
    proof (cases "snd (scan_global (bufs s) [0..<length (bufs s)] t None)")
      case n: None
      with Inr r None show ?thesis
        by (simp add: bget_def globalfind_start unlocked_def eval_nat_numeral Let_def)
    next
      case (Some c)
      from scan_global_Some[OF Some] have c0: "refcnt (bufs s ! c) = 0" by simp
      show ?thesis
      proof (cases "hash (blockno (bufs s ! c)) = hash blk")
        case True
        with Inr r None Some show ?thesis
          by (simp add: bget_def globalfind_start unlocked_def eval_nat_numeral Let_def)
      next
        case False
        show ?thesis
        proof (cases "unlink c (bucket s ! hash (blockno (bufs s ! c)))")
          case u: None
          with Inr r None Some False c0 show ?thesis
            by (simp add: bget_def globalfind_start unlocked_def eval_nat_numeral Let_def)
        next
          case (Some l2)
          with Inr r None \<open>snd (scan_global (bufs s) [0..<length (bufs s)] t None) = Some c\<close>
            False c0 show ?thesis
            by (simp add: bget_def globalfind_start unlocked_def eval_nat_numeral Let_def
                acquiresleep_def upd_nth fun_upd_idem)
        qed
      qed
    qed
  qed
qed


section \<open>Exhaustion of the pool\<close>

lemma claim_done:
  assumes g: "bget s p d blk = Some (acquiresleep X p b)"
    and b: "b < length (bufs X)" "\<not> locked (lock (bufs X ! b))"
  shows "\<exists>s'. bread s p d blk = Some (Done (s', b)) \<and> length (bufs s') = length (bufs X) \<and>
     bucket s' = bucket X \<and>
     (\<forall>k. refcnt (bufs s' ! k) = refcnt (bufs X ! k) \<and> time (bufs s' ! k) = time (bufs X ! k) \<and>
          dev (bufs s' ! k) = dev (bufs X ! k) \<and> blockno (bufs s' ! k) = blockno (bufs X ! k)) \<and>
     (\<forall>k. k \<noteq> b \<longrightarrow> lock (bufs s' ! k) = lock (bufs X ! k)) \<and>
     locked (lock (bufs s' ! b))"
proof -
  let ?X1 = "X\<lparr>bufs := (bufs X)[b := (bufs X ! b)\<lparr>lock := \<lparr>locked = True, pid = p\<rparr>\<rparr>]\<rparr>"
  from b have a: "acquiresleep X p b = Done (?X1, b)" by (simp add: acquiresleep_def)
  with g have "bread s p d blk = Some (Done (bread_tail ?X1 b, b))" by (simp add: bread_def)
  moreover have "length (bufs (bread_tail ?X1 b)) = length (bufs X)"
    "bucket (bread_tail ?X1 b) = bucket X"
    "\<And>k. refcnt (bufs (bread_tail ?X1 b) ! k) = refcnt (bufs X ! k)"
    "\<And>k. time (bufs (bread_tail ?X1 b) ! k) = time (bufs X ! k)"
    "\<And>k. dev (bufs (bread_tail ?X1 b) ! k) = dev (bufs X ! k)"
    "\<And>k. blockno (bufs (bread_tail ?X1 b) ! k) = blockno (bufs X ! k)"
    "\<And>k. k \<noteq> b \<Longrightarrow> lock (bufs (bread_tail ?X1 b) ! k) = lock (bufs X ! k)"
    "locked (lock (bufs (bread_tail ?X1 b) ! b))"
    using b(1) by (simp_all add: bread_tail_same upd_nth)
  ultimately show ?thesis by blast
qed

lemma bread_claims_free:
  assumes w: "partitioned s"
    and l: "\<forall>k<length (bufs s). locked (lock (bufs s ! k)) \<longrightarrow> refcnt (bufs s ! k) \<noteq> 0"
    and u: "\<forall>k<length (bufs s). dev (bufs s ! k) = d \<and> blockno (bufs s ! k) = blk \<longrightarrow>
              refcnt (bufs s ! k) = 0"
    and f: "f < length (bufs s)" "refcnt (bufs s ! f) = 0" "time (bufs s ! f) \<noteq> - 1"
  shows "\<exists>s' b. bread s p d blk = Some (Done (s', b)) \<and> b < length (bufs s) \<and>
     refcnt (bufs s ! b) = 0 \<and> partitioned s' \<and> length (bufs s') = length (bufs s) \<and>
     (\<forall>k. k \<noteq> b \<longrightarrow> refcnt (bufs s' ! k) = refcnt (bufs s ! k) \<and>
        lock (bufs s' ! k) = lock (bufs s ! k) \<and> dev (bufs s' ! k) = dev (bufs s ! k) \<and>
        blockno (bufs s' ! k) = blockno (bufs s ! k)) \<and>
     (\<forall>k. time (bufs s' ! k) = time (bufs s ! k)) \<and>
     refcnt (bufs s' ! b) = 1 \<and> locked (lock (bufs s' ! b)) \<and>
     dev (bufs s' ! b) = d \<and> blockno (bufs s' ! b) = blk"
  using w
proof (cases rule: bget_cases[where d=d and blk=blk and p=p])
  case (hit i)
  from cached_Some_mem[OF hit(1)] w have i: "i < length (bufs s)" "dev (bufs s ! i) = d"
    "blockno (bufs s ! i) = blk"
    using hash_less[of blk] by (simp_all add: wf_mem_iff)
  with u have r: "refcnt (bufs s ! i) = 0" by simp
  with l i have nl: "\<not> locked (lock (bufs s ! i))" by auto
  have X: "i < length (bufs (hit s i))" "\<not> locked (lock (bufs (hit s i) ! i))"
    using i nl by (simp_all add: hit_def)
  from claim_done[OF hit(2) X] obtain s' where
    s': "bread s p d blk = Some (Done (s', i))" "length (bufs s') = length (bufs (hit s i))"
      "bucket s' = bucket (hit s i)"
      "\<forall>k. refcnt (bufs s' ! k) = refcnt (bufs (hit s i) ! k) \<and>
           time (bufs s' ! k) = time (bufs (hit s i) ! k) \<and>
           dev (bufs s' ! k) = dev (bufs (hit s i) ! k) \<and>
           blockno (bufs s' ! k) = blockno (bufs (hit s i) ! k)"
      "\<forall>k. k \<noteq> i \<longrightarrow> lock (bufs s' ! k) = lock (bufs (hit s i) ! k)"
      "locked (lock (bufs s' ! i))"
    by blast
  have "partitioned s'" by (rule wf_cong[OF wf_hit[OF w, of i]]) (simp_all add: s')
  with s' i r show ?thesis
    by (intro exI[of _ s'] exI[of _ i]) (simp add: hit_def upd_nth)
next
  case (local b)
  from local(2) w have b: "b < length (bufs s)"
    using hash_less[of blk] by (simp add: wf_mem_iff)
  with l local(3) have nl: "\<not> locked (lock (bufs s ! b))" by auto
  let ?X = "reclaim s b d blk"
  have X: "b < length (bufs ?X)" "\<not> locked (lock (bufs ?X ! b))"
    using b nl by (simp_all add: reclaim_def)
  from claim_done[OF local(5) X] obtain s' where
    s': "bread s p d blk = Some (Done (s', b))" "length (bufs s') = length (bufs ?X)"
      "bucket s' = bucket ?X"
      "\<forall>k. refcnt (bufs s' ! k) = refcnt (bufs ?X ! k) \<and>
           time (bufs s' ! k) = time (bufs ?X ! k) \<and>
           dev (bufs s' ! k) = dev (bufs ?X ! k) \<and>
           blockno (bufs s' ! k) = blockno (bufs ?X ! k)"
      "\<forall>k. k \<noteq> b \<longrightarrow> lock (bufs s' ! k) = lock (bufs ?X ! k)"
      "locked (lock (bufs s' ! b))"
    by blast
  have "partitioned s'" by (rule wf_cong[OF wf_reclaim[OF w local(2), of d]]) (simp_all add: s')
  with s' b local(3) show ?thesis
    by (intro exI[of _ s'] exI[of _ b]) (simp add: reclaim_def upd_nth)
next
  case (global b)
  note b = global(2)
  with l global(3) have nl: "\<not> locked (lock (bufs s ! b))" by auto
  let ?X = "migrate s b d blk"
  have X: "b < length (bufs ?X)" "\<not> locked (lock (bufs ?X ! b))"
    using b nl by (simp_all add: migrate_def Let_def)
  from claim_done[OF global(7) X] obtain s' where
    s': "bread s p d blk = Some (Done (s', b))" "length (bufs s') = length (bufs ?X)"
      "bucket s' = bucket ?X"
      "\<forall>k. refcnt (bufs s' ! k) = refcnt (bufs ?X ! k) \<and>
           time (bufs s' ! k) = time (bufs ?X ! k) \<and>
           dev (bufs s' ! k) = dev (bufs ?X ! k) \<and>
           blockno (bufs s' ! k) = blockno (bufs ?X ! k)"
      "\<forall>k. k \<noteq> b \<longrightarrow> lock (bufs s' ! k) = lock (bufs ?X ! k)"
      "locked (lock (bufs s' ! b))"
    by blast
  have "partitioned s'" by (rule wf_cong[OF wf_migrate[OF w global(2,4), of d]]) (simp_all add: s')
  with s' b global(3) show ?thesis
    by (intro exI[of _ s'] exI[of _ b]) (simp add: migrate_def Let_def upd_nth)
next
  case panic
  from panic(2) f have False
    by (simp add: scan_global_None less_max_word)
  then show ?thesis ..
qed

lemma used_finite: "finite (used s)" "used s \<subseteq> {..<length (bufs s)}"
  by (auto simp: used_def)

lemma fetched_step:
  assumes q: "fetched S s" and n: "(d, blk) \<notin> S" and c: "card (used s) < length (bufs s)"
  shows "\<exists>s' b. bread s p d blk = Some (Done (s', b)) \<and> b < length (bufs s) \<and>
     refcnt (bufs s ! b) = 0 \<and> fetched (insert (d, blk) S) s' \<and>
     length (bufs s') = length (bufs s) \<and> used s' = insert b (used s)"
proof -
  from q have w: "partitioned s"
    and l: "\<forall>k<length (bufs s). locked (lock (bufs s ! k)) \<longrightarrow> refcnt (bufs s ! k) \<noteq> 0"
    and t: "\<forall>k<length (bufs s). time (bufs s ! k) = 0"
    and i: "\<forall>k<length (bufs s). refcnt (bufs s ! k) \<noteq> 0 \<longrightarrow>
              (dev (bufs s ! k), blockno (bufs s ! k)) \<in> S"
    by (simp_all add: fetched_def)
  from i n have u: "\<forall>k<length (bufs s). dev (bufs s ! k) = d \<and> blockno (bufs s ! k) = blk \<longrightarrow>
      refcnt (bufs s ! k) = 0" by auto
  have "used s \<noteq> {..<length (bufs s)}"
  proof
    assume "used s = {..<length (bufs s)}"
    then have "card (used s) = length (bufs s)" by simp
    with c show False by simp
  qed
  with used_finite(2)[of s] obtain f where f: "f < length (bufs s)" "f \<notin> used s" by blast
  then have f0: "refcnt (bufs s ! f) = 0" by (simp add: used_def)
  from t f have ft: "time (bufs s ! f) \<noteq> - 1" by simp
  from bread_claims_free[OF w l u f(1) f0 ft, of p] obtain s' b where
    s': "bread s p d blk = Some (Done (s', b))" "b < length (bufs s)" "refcnt (bufs s ! b) = 0"
      "partitioned s'" "length (bufs s') = length (bufs s)"
      "\<forall>k. k \<noteq> b \<longrightarrow> refcnt (bufs s' ! k) = refcnt (bufs s ! k) \<and>
        lock (bufs s' ! k) = lock (bufs s ! k) \<and> dev (bufs s' ! k) = dev (bufs s ! k) \<and>
        blockno (bufs s' ! k) = blockno (bufs s ! k)"
      "\<forall>k. time (bufs s' ! k) = time (bufs s ! k)"
      "refcnt (bufs s' ! b) = 1" "locked (lock (bufs s' ! b))"
      "dev (bufs s' ! b) = d" "blockno (bufs s' ! b) = blk"
    by blast
  have "fetched (insert (d, blk) S) s'"
    unfolding fetched_def
  proof (intro conjI allI impI)
    show "partitioned s'" by (rule s'(4))
  next
    fix k assume "k < length (bufs s')"
    with t s'(5,7) show "time (bufs s' ! k) = 0" by simp
  next
    fix k assume "k < length (bufs s')" "locked (lock (bufs s' ! k))"
    with l s'(5,6,8) show "refcnt (bufs s' ! k) \<noteq> 0" by (cases "k = b") auto
  next
    fix k assume "k < length (bufs s')" "refcnt (bufs s' ! k) \<noteq> 0"
    with i s'(5,6,10,11) show "(dev (bufs s' ! k), blockno (bufs s' ! k)) \<in> insert (d, blk) S"
      by (cases "k = b") auto
  qed
  moreover have "(refcnt (bufs s' ! k) \<noteq> 0) = (k = b \<or> refcnt (bufs s ! k) \<noteq> 0)" for k
    using s'(6,8) by (cases "k = b") simp_all
  then have "used s' = insert b (used s)"
    using s'(2,5) by (auto simp: used_def)
  ultimately show ?thesis using s'(1,2,3,5) by blast
qed

lemma fetched_run:
  assumes "fetched S s" and "distinct (map snd ids)" and "snd ` set ids \<inter> S = {}"
    and "card (used s) + length ids \<le> length (bufs s)"
  shows "\<exists>s'. exec s (map fetch_call ids) = Some s' \<and> fetched (S \<union> snd ` set ids) s' \<and>
     card (used s') = card (used s) + length ids \<and> length (bufs s') = length (bufs s)"
  using assms
proof (induction ids arbitrary: s S)
  case Nil
  then show ?case by simp
next
  case (Cons x ids)
  obtain p d blk where x: "x = (p, d, blk)" by (cases x)
  from Cons.prems(3) x have n: "(d, blk) \<notin> S" by auto
  from Cons.prems(4) have c: "card (used s) < length (bufs s)" by simp
  from fetched_step[OF Cons.prems(1) n c, of p] obtain s1 b where
    s1: "bread s p d blk = Some (Done (s1, b))" "refcnt (bufs s ! b) = 0" "b < length (bufs s)"
      "fetched (insert (d, blk) S) s1" "length (bufs s1) = length (bufs s)"
      "used s1 = insert b (used s)"
    by blast
  from s1(2) have "b \<notin> used s" by (simp add: used_def)
  with s1(6) used_finite(1)[of s] have c1: "card (used s1) = card (used s) + 1" by simp
  from Cons.prems(2,3) x have d1: "distinct (map snd ids)"
    "snd ` set ids \<inter> insert (d, blk) S = {}" by auto
  from Cons.prems(4) c1 s1(5) have "card (used s1) + length ids \<le> length (bufs s1)" by simp
  from Cons.IH[OF s1(4) d1 this] obtain s' where
    s': "exec s1 (map fetch_call ids) = Some s'"
      "fetched (insert (d, blk) S \<union> snd ` set ids) s'"
      "card (used s') = card (used s1) + length ids" "length (bufs s') = length (bufs s1)"
    by blast
  have e: "insert (d, blk) S \<union> snd ` set ids = S \<union> snd ` set (x # ids)" using x by auto
  have "exec s (map fetch_call (x # ids)) = exec s1 (map fetch_call ids)"
    using s1(1) x by (simp add: fetch_call_def)
  with s'(1) have "exec s (map fetch_call (x # ids)) = Some s'" by simp
  moreover from s'(2) e have "fetched (S \<union> snd ` set (x # ids)) s'" by simp
  moreover from s'(3) c1 have "card (used s') = card (used s) + length (x # ids)" by simp
  moreover from s'(4) s1(5) have "length (bufs s') = length (bufs s)" by simp
  ultimately show ?case by blast
qed

lemma fetched_full:
  assumes q: "fetched S s" and n: "(d, blk) \<notin> S" and c: "card (used s) = length (bufs s)"
  shows "(\<forall>k<length (bufs s). refcnt (bufs s ! k) \<noteq> 0) \<and>
     cached (bufs s) d blk (bucket s ! hash blk) = None"
proof -
  from q have w: "partitioned s"
    and i: "\<forall>k<length (bufs s). refcnt (bufs s ! k) \<noteq> 0 \<longrightarrow>
              (dev (bufs s ! k), blockno (bufs s ! k)) \<in> S"
    by (simp_all add: fetched_def)
  have "used s = {..<length (bufs s)}"
    by (rule card_subset_eq) (use c used_finite(2)[of s] in simp_all)
  then have a: "\<forall>k<length (bufs s). refcnt (bufs s ! k) \<noteq> 0" by (auto simp: used_def)
  have "cached (bufs s) d blk (bucket s ! hash blk) = None"
  proof (cases "cached (bufs s) d blk (bucket s ! hash blk)")
    case (Some k)
    from cached_Some_mem[OF Some] w have "k < length (bufs s)" "dev (bufs s ! k) = d"
      "blockno (bufs s ! k) = blk"
      using hash_less[of blk] by (simp_all add: wf_mem_iff)
    with a i n show ?thesis by auto
  qed simp
  with a show ?thesis by simp
qed

lemma miss_no_free_panics:
  assumes w: "partitioned s" and c: "cached (bufs s) d blk (bucket s ! hash blk) = None"
    and g: "snd (scan_global (bufs s) [0..<length (bufs s)] (- 1) None) = None"
  shows "bread s p d blk = Some (Panic OutOfBuffers)"
  using w
proof (cases rule: bget_cases[where d=d and blk=blk and p=p])
  case (hit i)
  with c show ?thesis by simp
next
  case (local b)
  from scan_global_Some[OF local(4)] w have "b < length (bufs s)" "refcnt (bufs s ! b) = 0"
    "time (bufs s ! b) < - 1"
    using hash_less[of blk] by (simp_all add: wf_mem_iff)
  with g show ?thesis by (simp add: scan_global_None)
next
  case (global b)
  with g show ?thesis by simp
next
  case panic
  then show ?thesis by (simp add: bread_def)
qed

lemma fetched_init: "fetched {} (binit (boot n)) \<and> used (binit (boot n)) = {}"
proof -
  from inv_init[of 0 n] have "partitioned (binit (boot n))" by (simp add: cache_inv_def)
  with binit_boot_facts[of n] show ?thesis by (simp add: fetched_def used_def)
qed

text \<open>
  Calls that follow one another.  A \<open>bread\<close> that misses in its bucket when the scan of
  the whole array finds no buffer to reclaim panics with "bget: no buffers"; the scan
  finds none when every \<open>refcnt\<close> is different from 0.  After \<open>binit\<close>, of \<open>NBUF + 1\<close>
  fetches of different blocks without a release, each of the first \<open>NBUF\<close> returns a
  buffer whose \<open>refcnt\<close> was 0, and the last one panics with "bget: no buffers".
\<close>

lemma exhaustion_alone:
  "(partitioned s \<longrightarrow> cached (bufs s) d blk (bucket s ! hash blk) = None \<longrightarrow>
      snd (scan_global (bufs s) [0..<length (bufs s)] (- 1) None) = None \<longrightarrow>
      bread s p d blk = Some (Panic OutOfBuffers)) \<and>
   ((\<forall>k<length (bufs s). refcnt (bufs s ! k) \<noteq> 0) \<longrightarrow>
      snd (scan_global (bufs s) [0..<length (bufs s)] (- 1) None) = None) \<and>
   (length ids = nbuf \<longrightarrow> distinct (map snd (ids @ [x])) \<longrightarrow>
      (\<exists>s'. exec (binit (boot nbuf)) (map fetch_call ids) = Some s' \<and>
         kstep s' (fetch_call x) = Some (Panic OutOfBuffers)) \<and>
      (\<forall>pre y post. ids = pre @ y # post \<longrightarrow>
         (\<exists>s1 s2 b. exec (binit (boot nbuf)) (map fetch_call pre) = Some s1 \<and>
            bread s1 (fst y) (fst (snd y)) (snd (snd y)) = Some (Done (s2, b)) \<and>
            b < nbuf \<and> refcnt (bufs s1 ! b) = 0)))"
proof (intro conjI impI allI)
  assume "partitioned s" "cached (bufs s) d blk (bucket s ! hash blk) = None"
    "snd (scan_global (bufs s) [0..<length (bufs s)] (- 1) None) = None"
  then show "bread s p d blk = Some (Panic OutOfBuffers)" by (rule miss_no_free_panics)
next
  assume "\<forall>k<length (bufs s). refcnt (bufs s ! k) \<noteq> 0"
  then show "snd (scan_global (bufs s) [0..<length (bufs s)] (- 1) None) = None"
    by (simp add: scan_global_None)
next
  let ?s0 = "binit (boot nbuf)"
  assume len: "length ids = nbuf" and dist: "distinct (map snd (ids @ [x]))"
  note f0 = fetched_init[of nbuf]
  have l0: "length (bufs ?s0) = nbuf" using binit_boot_facts[of nbuf] by simp
  from dist have d: "distinct (map snd ids)" "snd x \<notin> snd ` set ids" by auto
  from fetched_run[of "{}" ?s0 ids] f0 d(1) len l0 obtain s' where
    s': "exec ?s0 (map fetch_call ids) = Some s'" "fetched (snd ` set ids) s'"
      "card (used s') = length ids" "length (bufs s') = nbuf"
    by auto
  obtain p' d' blk' where x: "x = (p', d', blk')" by (cases x)
  with d(2) have "(d', blk') \<notin> snd ` set ids" by simp
  from fetched_full[OF s'(2) this] s'(3,4) len
  have "\<forall>k<length (bufs s'). refcnt (bufs s' ! k) \<noteq> 0"
    "cached (bufs s') d' blk' (bucket s' ! hash blk') = None" by simp_all
  with miss_no_free_panics[of s' d' blk' p'] s'(2)
  have "bread s' p' d' blk' = Some (Panic OutOfBuffers)"
    by (simp add: scan_global_None fetched_def)
  with s'(1) x show "\<exists>s'. exec ?s0 (map fetch_call ids) = Some s' \<and>
         kstep s' (fetch_call x) = Some (Panic OutOfBuffers)"
    by (simp add: fetch_call_def)
  fix pre y post
  assume ids: "ids = pre @ y # post"
  with d(1) have dp: "distinct (map snd pre)" "snd y \<notin> snd ` set pre" by auto
  from ids len have lp: "length pre < nbuf" by auto
  from fetched_run[of "{}" ?s0 pre] f0 dp(1) lp l0 obtain s1 where
    s1: "exec ?s0 (map fetch_call pre) = Some s1" "fetched (snd ` set pre) s1"
      "card (used s1) = length pre" "length (bufs s1) = nbuf"
    by auto
  obtain q e bl where y: "y = (q, e, bl)" by (cases y)
  with dp(2) have "(e, bl) \<notin> snd ` set pre" by simp
  from fetched_step[OF s1(2) this, of q] s1(3,4) lp obtain s2 b where
    "bread s1 q e bl = Some (Done (s2, b))" "b < nbuf" "refcnt (bufs s1 ! b) = 0"
    by auto
  with s1(1) y show "\<exists>s1 s2 b. exec ?s0 (map fetch_call pre) = Some s1 \<and>
            bread s1 (fst y) (fst (snd y)) (snd (snd y)) = Some (Done (s2, b)) \<and>
            b < nbuf \<and> refcnt (bufs s1 ! b) = 0"
    by auto
qed

lemma exhaustion_alone_example:
  "partitioned three_held \<and> cached (bufs three_held) 0 3 (bucket three_held ! hash 3) = None \<and>
   length (bufs three_held) = 3 \<and> refcnt (bufs three_held ! 0) \<noteq> 0 \<and>
   refcnt (bufs three_held ! 1) \<noteq> 0 \<and> refcnt (bufs three_held ! 2) \<noteq> 0 \<and>
   snd (scan_global (bufs three_held) [0..<length (bufs three_held)] (- 1) None) = None \<and>
   bread three_held 0 0 3 = Some (Panic OutOfBuffers) \<and>
   length [(0, 0, 0), (1, 0, 1), (2::nat, 0::u32, 2::u32)] = 3 \<and>
   distinct (map snd ([(0, 0, 0), (1, 0, 1), (2::nat, 0::u32, 2::u32)] @ [(0, 0, 3)])) \<and>
   exec (binit (boot 3)) (map fetch_call [(0, 0, 0), (1, 0, 1), (2, 0, 2)]) = Some three_held \<and>
   kstep three_held (fetch_call (0, 0, 3)) = Some (Panic OutOfBuffers) \<and>
   (\<exists>s1 s2 b. exec (binit (boot 3)) (map fetch_call [(0, 0, 0)]) = Some s1 \<and>
      bread s1 1 0 1 = Some (Done (s2, b)) \<and> b < 3 \<and> refcnt (bufs s1 ! b) = 0)"
proof -
  let ?ids = "[(0, 0, 0), (1, 0, 1), (2::nat, 0::u32, 2::u32)]"
  note e = exhaustion_alone[of three_held 0 3 0 ?ids 3 "(0, 0, 3)"]
  have c: "cached (bufs three_held) 0 3 (bucket three_held ! hash 3) = None"
    by (simp add: three_held_def cached_def hash_def N_def)
  have r: "\<forall>k<length (bufs three_held). refcnt (bufs three_held ! k) \<noteq> 0"
    by (simp add: three_held_def less_Suc_eq eval_nat_numeral)
  have l: "length ?ids = 3" "distinct (map snd (?ids @ [(0, 0, 3)]))" by simp_all
  have x: "exec (binit (boot 3)) (map fetch_call ?ids) = Some three_held"
    by (simp add: three_held_def fetch_call_def eval_defs)
  from e r have g: "snd (scan_global (bufs three_held) [0..<length (bufs three_held)] (- 1) None) = None"
    by blast
  from e three_held_wf c g have p: "bread three_held 0 0 3 = Some (Panic OutOfBuffers)" by blast
  from e l x have k: "kstep three_held (fetch_call (0, 0, 3)) = Some (Panic OutOfBuffers)"
    by auto
  have "?ids = [(0, 0, 0)] @ (1, 0, 1) # [(2, 0, 2)]" by simp
  with e l obtain s1 s2 b where "exec (binit (boot 3)) (map fetch_call [(0, 0, 0)]) = Some s1"
    "bread s1 (fst (1::nat, 0::u32, 1::u32)) (fst (snd (1::nat, 0::u32, 1::u32)))
       (snd (snd (1::nat, 0::u32, 1::u32))) = Some (Done (s2, b))"
    "b < 3" "refcnt (bufs s1 ! b) = 0"
    by blast
  then have "\<exists>s1 s2 b. exec (binit (boot 3)) (map fetch_call [(0, 0, 0)]) = Some s1 \<and>
      bread s1 1 0 1 = Some (Done (s2, b)) \<and> b < 3 \<and> refcnt (bufs s1 ! b) = 0"
    by auto
  moreover have "length (bufs three_held) = 3" "refcnt (bufs three_held ! 0) \<noteq> 0"
    "refcnt (bufs three_held ! 1) \<noteq> 0" "refcnt (bufs three_held ! 2) \<noteq> 0"
    by (simp_all add: three_held_def)
  ultimately show ?thesis using three_held_wf c g p l x k by blast
qed

subsection \<open>Exhaustion when calls overlap\<close>

lemma scan_global_busy:
  assumes "\<forall>k\<in>set l. refcnt (bs ! k) \<noteq> 0"
  shows "scan_global bs l t b = (t, b)"
  using assms by (induction l arbitrary: t b) simp_all

text \<open>
  The retry at lines 116-121 resets \<open>time\<close> and keeps \<open>b\<close>.  When every buffer is in use,
  the scan that follows changes neither, \<open>if(b)\<close> at line 112 passes with the buffer of the
  scan before, its \<open>refcnt\<close> is found different from 0 again, and \<open>bget\<close> goes back to
  \<open>globalfind\<close>: line 146 is never reached.
\<close>

lemma retry_keeps_candidate:
  assumes "\<forall>k<length (bufs (mem c)). refcnt (bufs (mem c) ! k) \<noteq> 0"
  shows "bget_step p d blk c (Scanning (- 1) (Some b)) =
     Some (c, Candidate b (hash (blockno (bufs (mem c) ! b))))"
  using assms by (simp add: scan_global_busy)

lemma busy_candidate_retries:
  assumes "refcnt (bufs (mem c) ! b) \<noteq> 0" and "bucket_lock c no2 = None"
  shows "bget_step p d blk c (Candidate b no2) = Some (c, Scanning (- 1) (Some b))"
  using assms by simp

lemma retry_forever:
  assumes a: "\<forall>k<length (bufs (mem c)). refcnt (bufs (mem c) ! k) \<noteq> 0"
    and b: "b < length (bufs (mem c))"
    and l: "bucket_lock c (hash (blockno (bufs (mem c) ! b))) = None"
  shows "solo n p d blk c (Scanning (- 1) (Some b)) \<in>
           {(c, Scanning (- 1) (Some b)), (c, Candidate b (hash (blockno (bufs (mem c) ! b))))} \<and>
         solo n p d blk c (Candidate b (hash (blockno (bufs (mem c) ! b)))) \<in>
           {(c, Scanning (- 1) (Some b)), (c, Candidate b (hash (blockno (bufs (mem c) ! b))))}"
proof (induction n)
  case 0
  show ?case by simp
next
  case (Suc n)
  from a b have r: "refcnt (bufs (mem c) ! b) \<noteq> 0" by simp
  show ?case
    using Suc retry_keeps_candidate[OF a, of p d blk b] busy_candidate_retries[OF r l, of p d blk]
    by (simp del: bget_step.simps)
qed

lemma spinning_busy:
  "\<forall>k<length (bufs (mem spinning)). refcnt (bufs (mem spinning) ! k) \<noteq> 0"
  by (simp add: spinning_def two_held_def less_Suc_eq eval_nat_numeral)

text \<open>
  C4.  When calls overlap, \<open>bget\<close> does not panic with "bget: no buffers" although the
  scan of the whole array finds no buffer with \<open>refcnt\<close> 0.  After \<open>binit\<close> on three
  buffers, processes 0 and 1 fetch blocks 0 and 1.  Process 2 runs \<open>bget(0, 13)\<close> up to
  line 115, where its scan has selected buffer 2; process 3 runs \<open>bget(0, 2)\<close>, which
  returns buffer 2; process 2 finds \<open>refcnt\<close> different from 0 at line 116 and goes back
  to \<open>globalfind\<close> with \<open>b\<close> still set.  From then on all three buffers are in use, a
  scan that starts without a candidate finds none, and process 2, however many steps
  it takes, is at \<open>globalfind\<close> or at line 115 and never at the panic of line 146: the
  fourth fetch of a different block without a release does not fail.
\<close>

theorem stale_candidate_spins:
  "run 4 (binit (boot 3)) [Bread 0 0 0, Bread 1 0 1] = Some two_held \<and>
   sched (unlocked two_held)
     [\<lparr>tpid = 2, tdev = 0, tblk = 13, tpc = Start\<rparr>, \<lparr>tpid = 3, tdev = 0, tblk = 2, tpc = Start\<rparr>]
     [0, 0, 0, 1, 1, 0] =
   Some (spinning, [\<lparr>tpid = 2, tdev = 0, tblk = 13, tpc = Scanning (- 1) (Some 2)\<rparr>,
                    \<lparr>tpid = 3, tdev = 0, tblk = 2, tpc = Returned 2\<rparr>]) \<and>
   length (bufs (mem spinning)) = 3 \<and>
   refcnt (bufs (mem spinning) ! 0) \<noteq> 0 \<and> refcnt (bufs (mem spinning) ! 1) \<noteq> 0 \<and>
   refcnt (bufs (mem spinning) ! 2) \<noteq> 0 \<and>
   snd (scan_global (bufs (mem spinning)) [0..<length (bufs (mem spinning))] (- 1) None) = None \<and>
   bget_step 2 0 13 spinning (Scanning (- 1) (Some 2)) = Some (spinning, Candidate 2 2) \<and>
   bget_step 2 0 13 spinning (Candidate 2 2) = Some (spinning, Scanning (- 1) (Some 2)) \<and>
   (\<forall>n. solo (2 * n) 2 0 13 spinning (Scanning (- 1) (Some 2)) =
          (spinning, Scanning (- 1) (Some 2))) \<and>
   (\<forall>n. snd (solo n 2 0 13 spinning (Scanning (- 1) (Some 2))) \<noteq> Panicked OutOfBuffers)"
proof -
  have r: "run 4 (binit (boot 3)) [Bread 0 0 0, Bread 1 0 1] = Some two_held"
    by (simp add: two_held_def eval_defs)
  have s: "sched (unlocked two_held)
     [\<lparr>tpid = 2, tdev = 0, tblk = 13, tpc = Start\<rparr>, \<lparr>tpid = 3, tdev = 0, tblk = 2, tpc = Start\<rparr>]
     [0, 0, 0, 1, 1, 0] =
   Some (spinning, [\<lparr>tpid = 2, tdev = 0, tblk = 13, tpc = Scanning (- 1) (Some 2)\<rparr>,
                    \<lparr>tpid = 3, tdev = 0, tblk = 2, tpc = Returned 2\<rparr>])"
    by (simp add: spinning_def unlocked_def two_held_def eval_defs)
  have f: "length (bufs (mem spinning)) = 3" "refcnt (bufs (mem spinning) ! 0) \<noteq> 0"
    "refcnt (bufs (mem spinning) ! 1) \<noteq> 0" "refcnt (bufs (mem spinning) ! 2) \<noteq> 0"
    "hash (blockno (bufs (mem spinning) ! 2)) = 2" "bucket_lock spinning 2 = None"
    by (simp_all add: spinning_def two_held_def hash_def N_def)
  have g: "snd (scan_global (bufs (mem spinning)) [0..<length (bufs (mem spinning))] (- 1) None) = None"
    using spinning_busy by (simp add: scan_global_None)
  have a: "bget_step 2 0 13 spinning (Scanning (- 1) (Some 2)) = Some (spinning, Candidate 2 2)"
    using retry_keeps_candidate[OF spinning_busy, of 2 0 13 2] f(5) by simp
  have b: "bget_step 2 0 13 spinning (Candidate 2 2) = Some (spinning, Scanning (- 1) (Some 2))"
    using busy_candidate_retries[OF f(4,6)] by simp
  have c: "solo (2 * n) 2 0 13 spinning (Scanning (- 1) (Some 2)) =
      (spinning, Scanning (- 1) (Some 2))" for n
    using a b by (induction n) (simp_all del: bget_step.simps)
  have d: "snd (solo n 2 0 13 spinning (Scanning (- 1) (Some 2))) \<noteq> Panicked OutOfBuffers" for n
    using retry_forever[OF spinning_busy, of 2 n 2 0 13] f by auto
  from r s f(1-4) g a b c d show ?thesis by blast
qed


section \<open>The global scan and the caller's own bucket\<close>

text \<open>
  When no other call overlaps it, \<open>bget\<close> never takes a bucket lock twice and never walks
  off a list: the buffer that the global scan selects is in a bucket other than the
  caller's (lemma \<open>escalate_other_bucket\<close>).
\<close>

lemma bget_alone_no_deadlock:
  assumes "partitioned s"
  shows "bget s p d blk \<noteq> Some (Panic Deadlock) \<and> bget s p d blk \<noteq> Some (Panic Fault)"
  using assms
  by (cases rule: bget_cases[where d=d and blk=blk and p=p])
     (auto simp: acquiresleep_def split: if_splits)

lemma binit30:
  "binit (boot 30) =
     \<lparr>bufs = map (\<lambda>i. zero_buf\<lparr>blockno := of_nat (i mod 13)\<rparr>) [0..<30],
      bucket = [[26, 13, 0], [27, 14, 1], [28, 15, 2], [29, 16, 3], [17, 4], [18, 5],
        [19, 6], [20, 7], [21, 8], [22, 9], [23, 10], [24, 11], [25, 12]],
      ticks = 0, disk = (\<lambda>_. []), io_log = [], chan = (\<lambda>_. None)\<rparr>"
  by (simp add: eval_defs)

text \<open>
  C2.  The buffer that the global scan selects can be in the caller's own bucket when
  calls overlap.  From \<open>warm\<close>, which four fetches reach after \<open>binit\<close>, process 2 runs
  \<open>bget(0, 38)\<close> up to line 135 and then process 1 runs \<open>bget(0, 26)\<close> up to line 115.
  The scan of process 1 selects buffer 0: it is linked into bucket 12 already, but its
  \<open>refcnt\<close> is still 0 and its \<open>blockno\<close> still 0, so \<open>no2 = no = 0\<close> and
  \<open>acquire(&bucket[no2].lock)\<close> is called on the lock that process 1 holds.
\<close>

theorem migration_race:
  "exec (binit (boot 30)) [Bread 3 0 12, Bread 4 0 25, Bread 5 0 0, Bread 6 0 13] = Some warm \<and>
   sched (unlocked warm)
     [\<lparr>tpid = 1, tdev = 0, tblk = 26, tpc = Start\<rparr>, \<lparr>tpid = 2, tdev = 0, tblk = 38, tpc = Start\<rparr>]
     [1, 1, 1, 1, 1, 0, 0, 0] =
   Some (raced, [\<lparr>tpid = 1, tdev = 0, tblk = 26, tpc = Candidate 0 0\<rparr>,
                 \<lparr>tpid = 2, tdev = 0, tblk = 38, tpc = Linked 0\<rparr>]) \<and>
   bucket (mem raced) ! 12 = [0, 25, 12] \<and> refcnt (bufs (mem raced) ! 0) = 0 \<and>
   hash (blockno (bufs (mem raced) ! 0)) = hash 26 \<and> bucket_lock raced (hash 26) = Some 1 \<and>
   bget_step 1 0 26 raced (Candidate 0 0) = Some (raced, Panicked Deadlock)"
  by (simp add: raced_def unlocked_def warm_def held_def binit30)
     (simp add: eval_defs fun_upd_twist)


end
